theory Spec2Isabelle
  imports Main "HOL-Library.Sublist" "HOL-Library.Char_ord" "HOL-Library.List_Lexorder"
begin

text \<open>
  A shallow embedding of \<^verbatim>\<open>data/scraper.js\<close>, the scraper that turns the HTML reference of
  the Teardown scripting API into a version, categories and function descriptors: the
  string operations and regular expressions it relies on, its functions with their
  loops as recursive functions and their TypeErrors as values, and the properties of
  the specification proved about them.
\<close>

section \<open>JavaScript strings\<close>

text \<open>
  A JavaScript string is modelled as a \<^typ>\<open>string\<close>: one \<^typ>\<open>char\<close> per code unit, for
  the code units U+0000 to U+00FF. In that range the white space of \<^verbatim>\<open>\s\<close> and of
  \<^verbatim>\<open>trim()\<close> is TAB, LF, VT, FF, CR, SPACE and NBSP, and the line terminators that
  \<^verbatim>\<open>.\<close> refuses are LF and CR.
\<close>

definition is_space :: "char \<Rightarrow> bool" where
  "is_space c = (c = CHR 0x09 \<or> c = CHR 0x0A \<or> c = CHR 0x0B \<or> c = CHR 0x0C \<or>
                 c = CHR 0x0D \<or> c = CHR 0x20 \<or> c = CHR 0xA0)"

definition is_line_terminator :: "char \<Rightarrow> bool" where
  "is_line_terminator c = (c = CHR 0x0A \<or> c = CHR 0x0D)"

definition trim :: "string \<Rightarrow> string" where
  "trim s = rev (dropWhile is_space (rev (dropWhile is_space s)))"

text \<open>\<^verbatim>\<open>s.substring(a, b)\<close>: the arguments are swapped when \<open>a > b\<close> and clamped to the length.\<close>

definition substring :: "string \<Rightarrow> nat \<Rightarrow> nat \<Rightarrow> string" where
  "substring s a b = take (max a b - min a b) (drop (min a b) s)"

text \<open>\<^verbatim>\<open>s.indexOf(pat)\<close>: the first position where \<open>pat\<close> starts, or \<open>-1\<close>.\<close>

fun indexOf :: "string \<Rightarrow> string \<Rightarrow> int" where
  "indexOf [] pat = (if pat = [] then 0 else - 1)"
| "indexOf (x # xs) pat =
     (if prefix pat (x # xs) then 0
      else (case indexOf xs pat of r \<Rightarrow> if r < 0 then - 1 else r + 1))"

text \<open>
  \<^verbatim>\<open>s.split(sep)\<close> for a non-empty string separator: the pieces between the occurrences
  of \<open>sep\<close>, found from the left without overlap. \<open>acc\<close> is the piece being read.
\<close>

function split_from :: "string \<Rightarrow> string \<Rightarrow> string \<Rightarrow> string list" where
  "split_from sep acc [] = [acc]"
| "split_from sep acc (x # xs) =
     (if sep \<noteq> [] \<and> prefix sep (x # xs)
      then acc # split_from sep [] (drop (length sep) (x # xs))
      else split_from sep (acc @ [x]) xs)"
  by pat_completeness auto
termination
  by (relation "measure (\<lambda>(sep, acc, s). length s)") auto

definition split :: "string \<Rightarrow> string \<Rightarrow> string list" where
  "split s sep = split_from sep [] s"

text \<open>\<^verbatim>\<open>parts.join(sep)\<close>.\<close>

fun join :: "string list \<Rightarrow> string \<Rightarrow> string" where
  "join [] sep = []"
| "join [x] sep = x"
| "join (x # y # ys) sep = x @ sep @ join (y # ys) sep"

section \<open>Regular expressions\<close>

text \<open>
  Every pattern of the scraper is a sequence of literals, optional characters and
  repetitions of one character class, some of them capturing. \<open>Rep q k p\<close> is the class
  \<open>p\<close> repeated at least \<open>k\<close> times, greedily (\<^verbatim>\<open>*\<close>, \<^verbatim>\<open>+\<close>) or lazily (\<^verbatim>\<open>*?\<close>);
  \<open>Grp q k p\<close> is the same inside a capturing group; \<open>Opt c\<close> is \<^verbatim>\<open>c?\<close>.
\<close>

datatype quant = Greedy | Lazy

datatype node =
    Lit string
  | Opt char
  | Rep quant nat "char \<Rightarrow> bool"
  | Grp quant nat "char \<Rightarrow> bool"

definition orelse :: "'a option \<Rightarrow> 'a option \<Rightarrow> 'a option" where
  "orelse a b = (case a of Some r \<Rightarrow> Some r | None \<Rightarrow> b)"

text \<open>
  The backtracking matcher of ECMAScript. \<open>rep q k p cont acc s\<close> has read \<open>acc\<close> and
  stands before \<open>s\<close>: a greedy repetition first tries one more character and falls back
  to the continuation, a lazy one first tries the continuation.
\<close>

fun rep :: "quant \<Rightarrow> nat \<Rightarrow> (char \<Rightarrow> bool) \<Rightarrow> (string \<Rightarrow> string \<Rightarrow> 'a option) \<Rightarrow>
            string \<Rightarrow> string \<Rightarrow> 'a option" where
  "rep q k p cont acc [] = (if k \<le> length acc then cont acc [] else None)"
| "rep Greedy k p cont acc (x # xs) =
     orelse (if p x then rep Greedy k p cont (acc @ [x]) xs else None)
            (if k \<le> length acc then cont acc (x # xs) else None)"
| "rep Lazy k p cont acc (x # xs) =
     orelse (if k \<le> length acc then cont acc (x # xs) else None)
            (if p x then rep Lazy k p cont (acc @ [x]) xs else None)"

text \<open>\<open>bt ns s\<close> matches \<open>ns\<close> at the start of \<open>s\<close>: the captures and what is left of \<open>s\<close>.\<close>

fun bt :: "node list \<Rightarrow> string \<Rightarrow> (string list \<times> string) option" where
  "bt [] s = Some ([], s)"
| "bt (Lit l # ns) s = (if prefix l s then bt ns (drop (length l) s) else None)"
| "bt (Opt c # ns) s =
     orelse (case s of [] \<Rightarrow> None | x # xs \<Rightarrow> if x = c then bt ns xs else None) (bt ns s)"
| "bt (Rep q k p # ns) s = rep q k p (\<lambda>u r. bt ns r) [] s"
| "bt (Grp q k p # ns) s =
     rep q k p (\<lambda>u r. map_option (\<lambda>(caps, rest). (u # caps, rest)) (bt ns r)) [] s"

text \<open>A match object: \<^verbatim>\<open>m.index\<close>, \<^verbatim>\<open>m[0]\<close> and the captures \<^verbatim>\<open>m[1]\<close>, \<^verbatim>\<open>m[2]\<close>, ...\<close>

record rmatch =
  index :: nat
  whole :: string
  groups :: "string list"

text \<open>\<^verbatim>\<open>s.match(re)\<close> without the \<^verbatim>\<open>g\<close> flag: the match at the leftmost position that has one.\<close>

fun search :: "node list \<Rightarrow> string \<Rightarrow> rmatch option" where
  "search ns [] =
     (case bt ns [] of None \<Rightarrow> None
      | Some (caps, rest) \<Rightarrow> Some \<lparr>index = 0, whole = [], groups = caps\<rparr>)"
| "search ns (x # xs) =
     (case bt ns (x # xs) of
        Some (caps, rest) \<Rightarrow>
          Some \<lparr>index = 0, whole = take (length (x # xs) - length rest) (x # xs), groups = caps\<rparr>
      | None \<Rightarrow> map_option (\<lambda>m. m\<lparr>index := Suc (index m)\<rparr>) (search ns xs))"

text \<open>
  \<^verbatim>\<open>s.matchAll(re)\<close> with the \<^verbatim>\<open>g\<close> flag: the search starts again where the last match
  ended, one code unit further after an empty match. \<open>off\<close> is the position of \<open>s\<close> in
  the whole string, so that \<open>index\<close> is absolute.
\<close>

function matchAll_from :: "node list \<Rightarrow> nat \<Rightarrow> string \<Rightarrow> rmatch list" where
  "matchAll_from ns off s =
     (case search ns s of
        None \<Rightarrow> []
      | Some m \<Rightarrow>
          m\<lparr>index := off + index m\<rparr> #
            (if whole m = []
             then (if index m < length s
                   then matchAll_from ns (off + index m + 1) (drop (index m + 1) s) else [])
             else matchAll_from ns (off + index m + length (whole m))
                    (drop (index m + length (whole m)) s)))"
  by pat_completeness auto
termination
proof (relation "measure (\<lambda>(ns, off, s). length s)")
  show "wf (measure (\<lambda>(ns, off, s). length s))" by simp
next
  fix ns :: "node list" and off :: nat and s :: string and m :: rmatch
  assume "index m < length s"
  then show "((ns, off + index m + 1, drop (index m + 1) s), (ns, off, s))
              \<in> measure (\<lambda>(ns, off, s). length s)" by simp
next
  fix ns :: "node list" and off :: nat and s :: string and m :: rmatch
  assume m: "search ns s = Some m" and w: "whole m \<noteq> []"
  have "s \<noteq> []"
  proof
    assume "s = []"
    with m have "whole m = []" by (auto split: option.splits)
    with w show False by simp
  qed
  with w show "((ns, off + index m + length (whole m), drop (index m + length (whole m)) s),
                (ns, off, s)) \<in> measure (\<lambda>(ns, off, s). length s)"
    by (cases s) auto
qed

definition matchAll :: "string \<Rightarrow> node list \<Rightarrow> rmatch list" where
  "matchAll s ns = matchAll_from ns 0 s"

text \<open>\<^verbatim>\<open>s.replace(re, by)\<close> with the \<^verbatim>\<open>g\<close> flag and a replacement without \<^verbatim>\<open>$\<close>.\<close>

fun replace_loop :: "string \<Rightarrow> string \<Rightarrow> nat \<Rightarrow> rmatch list \<Rightarrow> string" where
  "replace_loop s by pos [] = drop pos s"
| "replace_loop s by pos (m # ms) =
     substring s pos (index m) @ by @ replace_loop s by (index m + length (whole m)) ms"

definition replace :: "string \<Rightarrow> node list \<Rightarrow> string \<Rightarrow> string" where
  "replace s ns by = replace_loop s by 0 (matchAll s ns)"

text \<open>
  \<^verbatim>\<open>s.split(re)\<close>: the pattern is tried at every position \<open>q\<close> after the last cut \<open>p\<close>;
  a match that ends at \<open>p\<close> is passed over, any other cuts the piece \<open>acc\<close> off and appends
  the captures. The empty string gives no piece when the pattern matches it, and itself
  otherwise.
\<close>

function split_re_from :: "node list \<Rightarrow> string \<Rightarrow> string \<Rightarrow> string list" where
  "split_re_from ns acc [] = [acc]"
| "split_re_from ns acc (x # xs) =
     (case bt ns (x # xs) of
        None \<Rightarrow> split_re_from ns (acc @ [x]) xs
      | Some (caps, rest) \<Rightarrow>
          if length rest < length (x # xs) then acc # caps @ split_re_from ns [] rest
          else if acc = [] then split_re_from ns [x] xs
          else acc # caps @ split_re_from ns [x] xs)"
  by pat_completeness auto
termination
  by (relation "measure (\<lambda>(ns, acc, s). length s)") auto

definition split_re :: "string \<Rightarrow> node list \<Rightarrow> string list" where
  "split_re s ns =
     (if s = [] then (case bt ns [] of None \<Rightarrow> [[]] | Some r \<Rightarrow> []) else split_re_from ns [] s)"

section \<open>The patterns of scraper.js\<close>

definition not_char :: "char \<Rightarrow> char \<Rightarrow> bool" where
  "not_char c x = (x \<noteq> c)"

definition dot :: "char \<Rightarrow> bool" where
  "dot x = (\<not> is_line_terminator x)"

definition any_char :: "char \<Rightarrow> bool" where
  "any_char x = True"

definition digit_or_dot :: "char \<Rightarrow> bool" where
  "digit_or_dot x = (x \<in> set ''0123456789.'')"

text \<open>\<^verbatim>\<open><${tag}([^>]*)>(.*?)</${tag}>\<close>\<close>

definition tagRegex :: "string \<Rightarrow> node list" where
  "tagRegex tag =
     [Lit (''<'' @ tag), Grp Greedy 0 (not_char CHR ''>''), Lit ''>'', Grp Lazy 0 dot,
      Lit (''</'' @ tag @ ''>'')]"

text \<open>\<^verbatim>\<open>/<span class='[^']+name'>([^<]+)<\/span> <span class='argtype'>\(([^<]+)\)<\/span> &ndash; (.*?)<br\/>/g\<close>\<close>

definition argRegex :: "node list" where
  "argRegex =
     [Lit (''<span class='' @ [CHR 0x27]), Rep Greedy 1 (not_char (CHR 0x27)), Lit ''name'>'',
      Grp Greedy 1 (not_char CHR ''<''), Lit ''</span> <span class='argtype'>('',
      Grp Greedy 1 (not_char CHR ''<''), Lit '')</span> &ndash; '', Grp Lazy 0 dot,
      Lit ''<br/>'']"

text \<open>\<^verbatim>\<open>/<pre class='example'>([\s\S]*?)<\/pre>/m\<close>\<close>

definition exampleRegex :: "node list" where
  "exampleRegex = [Lit ''<pre class='example'>'', Grp Lazy 0 any_char, Lit ''</pre>'']"

text \<open>\<^verbatim>\<open>/<table[^>]*>([\s\S]*?)<\/?table\/?>/gm\<close>\<close>

definition tableRegex :: "node list" where
  "tableRegex =
     [Lit ''<table'', Rep Greedy 0 (not_char CHR ''>''), Lit ''>'', Grp Lazy 0 any_char,
      Lit ''<'', Opt CHR ''/'', Lit ''table'', Opt CHR ''/'', Lit ''>'']"

text \<open>\<^verbatim>\<open>/<tr>(.*?)<\/tr>/g\<close>\<close>

definition trRegex :: "node list" where
  "trRegex = [Lit ''<tr>'', Grp Lazy 0 dot, Lit ''</tr>'']"

text \<open>\<^verbatim>\<open>/<td[^>]*>(.*?)<\/td>/g\<close>\<close>

definition tdRegex :: "node list" where
  "tdRegex =
     [Lit ''<td'', Rep Greedy 0 (not_char CHR ''>''), Lit ''>'', Grp Lazy 0 dot, Lit ''</td>'']"

text \<open>\<^verbatim>\<open>/&nbsp;/gm\<close>\<close>

definition nbspRegex :: "node list" where
  "nbspRegex = [Lit ''&nbsp;'']"

text \<open>\<^verbatim>\<open>/\s+/\<close>\<close>

definition spaceRegex :: "node list" where
  "spaceRegex = [Rep Greedy 1 is_space]"

text \<open>\<^verbatim>\<open>/<a href='#([^']*)'/g\<close>\<close>

definition hrefRegex :: "node list" where
  "hrefRegex = [Lit ''<a href='#'', Grp Greedy 0 (not_char (CHR 0x27)), Lit [CHR 0x27]]"

text \<open>\<^verbatim>\<open>/<h1>.*?\(([\d\.]+)\)<\/h1>/\<close>\<close>

definition versionRegex :: "node list" where
  "versionRegex =
     [Lit ''<h1>'', Rep Lazy 0 dot, Lit ''('', Grp Greedy 1 digit_or_dot, Lit '')</h1>'']"

section \<open>The scraper\<close>

text \<open>
  The three places where scraper.js reads a property of \<^verbatim>\<open>null\<close> or \<^verbatim>\<open>undefined\<close>, each
  a TypeError: \<^verbatim>\<open>data.match(...)[1]\<close> when the version pattern has no match,
  \<^verbatim>\<open>paragraphs[3].trim()\<close> when the fragment has fewer than four segments, and
  \<^verbatim>\<open>table[0][0]\<close> when the table has no row.
\<close>

datatype error = TypeError_version | TypeError_paragraph | TypeError_table

type_synonym table = "string list list"

type_synonym tables = "string \<rightharpoonup> table"

text \<open>
  \<^verbatim>\<open>obj[k] = v\<close> on an object created by \<^verbatim>\<open>{}\<close>: the key \<^verbatim>\<open>__proto__\<close> is the accessor of
  \<^verbatim>\<open>Object.prototype\<close>, so the assignment sets the prototype and creates no property.
\<close>

definition obj_set :: "tables \<Rightarrow> string \<Rightarrow> table \<Rightarrow> tables" where
  "obj_set obj k v = (if k = ''__proto__'' then obj else obj(k \<mapsto> v))"

record argument =
  arg_name :: string
  arg_desc :: string
  arg_optional :: bool
  arg_type :: string

record extracted =
  ex_textPart :: string
  ex_tablesPart :: tables

record func =
  fn_name :: string
  fn_arguments :: "argument list"
  fn_returns :: "argument list"
  fn_examples :: "string option list"
  fn_description :: string
  fn_tables :: tables

record category =
  cat_name :: string
  cat_description :: string
  cat_tables :: tables
  cat_entries :: "string list"

record document =
  doc_version :: string
  doc_categories :: "category list"
  doc_functions :: "func list"

definition matchTag :: "string \<Rightarrow> string \<Rightarrow> rmatch option" where
  "matchTag text tag = search (tagRegex tag) text"

definition mkArg :: "rmatch \<Rightarrow> argument" where
  "mkArg m =
     (let name = groups m ! 0; type = groups m ! 1; desc = groups m ! 2;
          optional = indexOf type '', optional''
      in \<lparr>arg_name = name, arg_desc = desc, arg_optional = (optional > - 1),
          arg_type = (if optional > - 1 then substring type 0 (nat optional) else type)\<rparr>)"

definition parseArgs :: "string \<Rightarrow> argument list" where
  "parseArgs paragraph = map mkArg (matchAll paragraph argRegex)"

text \<open>\<^verbatim>\<open>m && m[1].trim()\<close>: \<open>None\<close> is \<^verbatim>\<open>null\<close>.\<close>

definition parseExample :: "string \<Rightarrow> string option" where
  "parseExample paragraph =
     (case search exampleRegex paragraph of
        None \<Rightarrow> None
      | Some m \<Rightarrow> Some (trim (groups m ! 0)))"

text \<open>The rows that the inner loop of \<^verbatim>\<open>extractTables\<close> pushes for one table match.\<close>

definition table_rows :: "rmatch \<Rightarrow> table" where
  "table_rows match =
     map (\<lambda>r. map (\<lambda>c. trim (replace (groups c ! 0) nbspRegex '' ''))
                   (matchAll (groups r ! 0) tdRegex))
         (matchAll (groups match ! 0) trRegex)"

text \<open>
  \<^verbatim>\<open>table[0][0]\<close>: a TypeError without a row; \<^verbatim>\<open>undefined\<close> for a row without a cell,
  which the template and the property key both turn into the string \<^verbatim>\<open>undefined\<close>.
\<close>

definition table_name :: "table \<Rightarrow> error + string" where
  "table_name table =
     (case table of
        [] \<Rightarrow> Inl TypeError_table
      | row # rest \<Rightarrow> (case row of [] \<Rightarrow> Inr ''undefined'' | c # cs \<Rightarrow> Inr c))"

fun extractTables_loop ::
  "string \<Rightarrow> rmatch list \<Rightarrow> nat \<Rightarrow> string list \<Rightarrow> tables \<Rightarrow>
   error + (nat \<times> string list \<times> tables)" where
  "extractTables_loop textInput [] pos textResult tablesPart =
     Inr (pos, textResult, tablesPart)"
| "extractTables_loop textInput (match # ms) pos textResult tablesPart =
     (let textResult1 = textResult @ [substring textInput pos (index match)];
          pos1 = index match + length (whole match);
          table = table_rows match
      in case table_name table of
           Inl e \<Rightarrow> Inl e
         | Inr name \<Rightarrow>
             extractTables_loop textInput ms pos1
               (textResult1 @ [''${table:'' @ name @ ''}''])
               (obj_set tablesPart name (drop 1 table)))"

definition extractTables :: "string \<Rightarrow> error + extracted" where
  "extractTables textInput =
     (case extractTables_loop textInput (matchAll textInput tableRegex) 0 [] Map.empty of
        Inl e \<Rightarrow> Inl e
      | Inr (pos, textResult, tablesPart) \<Rightarrow>
          Inr \<lparr>ex_textPart = trim (join (textResult @ [drop pos textInput]) []),
               ex_tablesPart = tablesPart\<rparr>)"

fun formatDescription_loop :: "string list \<Rightarrow> string \<Rightarrow> string \<Rightarrow> string \<times> string" where
  "formatDescription_loop [] currentLine formattedDescription =
     (currentLine, formattedDescription)"
| "formatDescription_loop (word # words) currentLine formattedDescription =
     (if length currentLine + length word + 1 \<le> 80
      then formatDescription_loop words
             (currentLine @ (if currentLine \<noteq> [] then '' '' else []) @ word)
             formattedDescription
      else formatDescription_loop words word
             (formattedDescription @ (if formattedDescription \<noteq> [] then [CHR 0x0A] else [])
                @ currentLine))"

definition formatDescription :: "string \<Rightarrow> string" where
  "formatDescription description =
     (case formatDescription_loop (split_re description spaceRegex) [] [] of
        (currentLine, formattedDescription) \<Rightarrow>
          if currentLine \<noteq> []
          then formattedDescription @ (if formattedDescription \<noteq> [] then [CHR 0x0A] else [])
                 @ currentLine
          else formattedDescription)"

text \<open>\<open>Inr None\<close> is the \<^verbatim>\<open>undefined\<close> of the bare \<^verbatim>\<open>return\<close>.\<close>

definition parseFunction :: "string \<Rightarrow> error + func option" where
  "parseFunction text =
     (case matchTag text ''h3'' of
        None \<Rightarrow> Inr None
      | Some name \<Rightarrow>
          (let paragraphs = split text ''<p>'' in
           if length paragraphs \<le> 3 then Inl TypeError_paragraph
           else
             (let rawDescription0 = trim (paragraphs ! 3);
                  rawDescription =
                    (if length paragraphs > 5
                     then rawDescription0 @ [CHR 0x0A, CHR 0x0A] @ trim (paragraphs ! 4)
                     else rawDescription0)
              in case extractTables rawDescription of
                   Inl e \<Rightarrow> Inl e
                 | Inr r \<Rightarrow>
                     Inr (Some \<lparr>fn_name = groups name ! 1,
                                fn_arguments = parseArgs (paragraphs ! 1),
                                fn_returns = parseArgs (paragraphs ! 2),
                                fn_examples = [parseExample (paragraphs ! (length paragraphs - 1))],
                                fn_description = formatDescription (ex_textPart r),
                                fn_tables = ex_tablesPart r\<rparr>))))"

fun parseCategory_loop ::
  "string list \<Rightarrow> tables \<Rightarrow> string list \<Rightarrow> string list \<Rightarrow>
   error + (tables \<times> string list \<times> string list)" where
  "parseCategory_loop [] tables description entries = Inr (tables, description, entries)"
| "parseCategory_loop (part # parts) tables description entries =
     (case matchTag part ''a'' of
        Some a \<Rightarrow>
          parseCategory_loop parts tables description
            (entries @ map (\<lambda>m. groups m ! 0) (matchAll part hrefRegex))
      | None \<Rightarrow>
          (case extractTables part of
             Inl e \<Rightarrow> Inl e
           | Inr r \<Rightarrow>
               parseCategory_loop parts (tables ++ ex_tablesPart r)
                 (if ex_textPart r \<noteq> [] then description @ [ex_textPart r] else description)
                 entries))"

definition parseCategory :: "string \<Rightarrow> error + category option" where
  "parseCategory text =
     (case matchTag text ''h2'' of
        None \<Rightarrow> Inr None
      | Some name \<Rightarrow>
          (case parseCategory_loop (drop 1 (split text ''<p>'')) Map.empty [] [] of
             Inl e \<Rightarrow> Inl e
           | Inr (tables, description, entries) \<Rightarrow>
               Inr (Some \<lparr>cat_name = groups name ! 1,
                          cat_description = join description [CHR 0x0A, CHR 0x0A],
                          cat_tables = tables,
                          cat_entries = entries\<rparr>)))"

text \<open>The loop of \<^verbatim>\<open>scrapeAPI\<close> over the fragments; \<^verbatim>\<open>entries.sort()\<close> compares code units.\<close>

fun scrapeAPI_loop ::
  "string list \<Rightarrow> category list \<Rightarrow> func list \<Rightarrow> error + (category list \<times> func list)" where
  "scrapeAPI_loop [] categories functions = Inr (categories, functions)"
| "scrapeAPI_loop (part # parts) categories functions =
     (case parseCategory part of
        Inl e \<Rightarrow> Inl e
      | Inr (Some category) \<Rightarrow>
          scrapeAPI_loop parts
            (categories @ [category\<lparr>cat_entries := sort (cat_entries category)\<rparr>]) functions
      | Inr None \<Rightarrow>
          (case parseFunction part of
             Inl e \<Rightarrow> Inl e
           | Inr (Some func) \<Rightarrow> scrapeAPI_loop parts categories (functions @ [func])
           | Inr None \<Rightarrow> scrapeAPI_loop parts categories functions))"

text \<open>\<^verbatim>\<open>scrapeAPI\<close> after the fetch: \<open>data\<close> is the text of the page.\<close>

definition scrapeAPI :: "string \<Rightarrow> error + document" where
  "scrapeAPI data =
     (case search versionRegex data of
        None \<Rightarrow> Inl TypeError_version
      | Some m \<Rightarrow>
          (let version = groups m ! 0 in
           case scrapeAPI_loop (split data ''<hr/>'') [] [] of
             Inl e \<Rightarrow> Inl e
           | Inr (categories, functions) \<Rightarrow>
               Inr \<lparr>doc_version = version, doc_categories = categories,
                    doc_functions = functions\<rparr>))"

section \<open>Notions of the specification\<close>

text \<open>The lines of a text, as \<^verbatim>\<open>out.split("\n")\<close> gives them.\<close>

definition lines_of :: "string \<Rightarrow> string list" where
  "lines_of out = split out [CHR 0x0A]"

text \<open>The whitespace-delimited tokens of a text: the non-empty pieces between runs of white space.\<close>

definition tokens :: "string \<Rightarrow> string list" where
  "tokens s = filter (\<lambda>w. w \<noteq> []) (split_re s spaceRegex)"

text \<open>The test of \<^verbatim>\<open>formatDescription\<close>: the word, after one space, still fits the line.\<close>

definition would_fit :: "string \<Rightarrow> string \<Rightarrow> bool" where
  "would_fit currentLine word = (length currentLine + length word + 1 \<le> 80)"

text \<open>
  The loop of \<^verbatim>\<open>formatDescription\<close> seen on the list \<open>ls\<close> of the lines already in
  \<^verbatim>\<open>formattedDescription\<close> instead of their concatenation.
\<close>

fun pack :: "string list \<Rightarrow> string \<Rightarrow> string list \<Rightarrow> string list" where
  "pack [] currentLine ls = (if currentLine \<noteq> [] then ls @ [currentLine] else ls)"
| "pack (word # words) currentLine ls =
     (if length currentLine + length word + 1 \<le> 80
      then pack words (currentLine @ (if currentLine \<noteq> [] then '' '' else []) @ word) ls
      else pack words word (if currentLine = [] \<and> ls = [] then [] else ls @ [currentLine]))"

text \<open>A text with a token of 81 characters, runs of spaces and a trailing space.\<close>

definition sample_text :: string where
  "sample_text = replicate 81 (CHR ''x'') @ ''  ab cd '' @ replicate 75 (CHR ''y'') @ '' ef ''"

text \<open>
  What a pattern matches, with the captures: \<open>lc ns w caps\<close> when the string \<open>w\<close> splits
  into one piece for each node of \<open>ns\<close> and \<open>caps\<close> are the pieces of the groups.
\<close>

fun lc :: "node list \<Rightarrow> string \<Rightarrow> string list \<Rightarrow> bool" where
  "lc [] w caps = (w = [] \<and> caps = [])"
| "lc (Lit l # ns) w caps = (\<exists>v. w = l @ v \<and> lc ns v caps)"
| "lc (Opt c # ns) w caps = (lc ns w caps \<or> (\<exists>v. w = c # v \<and> lc ns v caps))"
| "lc (Rep q k p # ns) w caps =
     (\<exists>u v. w = u @ v \<and> k \<le> length u \<and> (\<forall>c\<in>set u. p c) \<and> lc ns v caps)"
| "lc (Grp q k p # ns) w caps =
     (\<exists>u v cs. w = u @ v \<and> k \<le> length u \<and> (\<forall>c\<in>set u. p c) \<and> caps = u # cs \<and> lc ns v cs)"

definition lang :: "node list \<Rightarrow> string \<Rightarrow> bool" where
  "lang ns w = (\<exists>caps. lc ns w caps)"

text \<open>
  The text from \<open>pos\<close> on in which every match is replaced by \<open>f\<close> of it; with
  \<open>f = whole\<close> it puts every match back in its place.
\<close>

fun weave :: "(rmatch \<Rightarrow> string) \<Rightarrow> string \<Rightarrow> nat \<Rightarrow> rmatch list \<Rightarrow> string" where
  "weave f s pos [] = drop pos s"
| "weave f s pos (m # ms) =
     substring s pos (index m) @ f m @ weave f s (index m + length (whole m)) ms"

text \<open>Sample inputs.\<close>

definition bare_function :: string where
  "bare_function = ''<h3>a</h3>''"

definition bare_function_page :: string where
  "bare_function_page = ''<h1>T (1.0)</h1><hr/><h3>a</h3>''"

definition sample_page :: string where
  "sample_page =
     ''<h1>Teardown API (1.2.3)</h1>'' @
     ''<hr/>'' @
     ''<h2>Cat</h2><p>Intro text<p><a href='#b'>b</a> <a href='#a'>a</a>'' @
     ''<hr/>'' @
     ''<h3>a</h3><p><span class='arg name'>x</span> <span class='argtype'>(number, optional)</span> &ndash; desc<br/><p><p>Does a.<p><pre class='example'>a(1)</pre>'' @
     ''<hr/>'' @
     ''<h3>b</h3><p><p><p>Does b.<p>''"

definition colors_table :: string where
  "colors_table = ''<table><tr><td>Colors</td></tr><tr><td>Red</td><td>255,0,0</td></tr></table>''"

definition empty_table :: string where
  "empty_table = ''<table></table>''"

definition unsorted_category :: string where
  "unsorted_category = ''<h2>Cat</h2><p><a href='#b'>b</a> <a href='#a'>a</a>''"






text \<open>
  The header that carries the version, as the version pattern looks for it: \<open>mid\<close> on
  one line, then the version \<open>v\<close>, digits and dots, in parentheses at the end.
\<close>

definition header_markup :: "string \<Rightarrow> string \<Rightarrow> string" where
  "header_markup mid v = ''<h1>'' @ mid @ ''('' @ v @ '')</h1>''"

definition header_parts_ok :: "string \<Rightarrow> string \<Rightarrow> bool" where
  "header_parts_ok mid v =
     ((\<forall>c\<in>set mid. \<not> is_line_terminator c) \<and> v \<noteq> [] \<and> (\<forall>c\<in>set v. digit_or_dot c))"

definition no_version_page :: string where
  "no_version_page = ''<h1>Teardown API</h1><hr/><h3>a</h3>''"

text \<open>
  A header of the tag, as \<^verbatim>\<open>matchTag\<close> looks for it: the opening tag with any attributes,
  a body on one line, the closing tag.
\<close>

definition has_header :: "string \<Rightarrow> string \<Rightarrow> bool" where
  "has_header tag text =
     (\<exists>pre attrs body post.
        text = pre @ ''<'' @ tag @ attrs @ ''>'' @ body @ ''</'' @ tag @ ''>'' @ post \<and>
        CHR ''>'' \<notin> set attrs \<and> (\<forall>c\<in>set body. \<not> is_line_terminator c))"





text \<open>
  The name that \<^verbatim>\<open>extractTables\<close> gives a table with at least one row: the first cell
  of the first row, or \<^verbatim>\<open>undefined\<close> as a string when that row has no cell.
\<close>

definition first_cell :: "table \<Rightarrow> string" where
  "first_cell t = (case t of (c # cs) # rest \<Rightarrow> c | _ \<Rightarrow> ''undefined'')"

definition placeholder :: "rmatch \<Rightarrow> string" where
  "placeholder m = ''${table:'' @ first_cell (table_rows m) @ ''}''"

text \<open>Every occurrence of \<open>pat\<close>, from the left and without overlap, replaced by \<open>by\<close>.\<close>

function subst_all :: "string \<Rightarrow> string \<Rightarrow> string \<Rightarrow> string" where
  "subst_all pat by [] = []"
| "subst_all pat by (x # xs) =
     (if pat \<noteq> [] \<and> prefix pat (x # xs)
      then by @ subst_all pat by (drop (length pat) (x # xs))
      else x # subst_all pat by xs)"
  by pat_completeness auto
termination
  by (relation "measure (\<lambda>(pat, by, s). length s)") auto

definition same_name_tables :: string where
  "same_name_tables =
     ''<table><tr><td>A</td></tr><tr><td>1</td></tr></table> and <table><tr><td>A</td></tr><tr><td>2</td></tr></table>''"

text \<open>A table named \<^verbatim>\<open>__proto__\<close>.\<close>

definition proto_table :: string where
  "proto_table = ''<table><tr><td>__proto__</td></tr><tr><td>1</td></tr></table>''"

text \<open>The table stored under a name in the result of \<^verbatim>\<open>extractTables\<close>, when there is one.\<close>

definition table_of :: "error + extracted \<Rightarrow> string \<Rightarrow> table option" where
  "table_of res name = (case res of Inl e \<Rightarrow> None | Inr r \<Rightarrow> ex_tablesPart r name)"

text \<open>The markup of one entry of an argument list, and what the pattern asks of its parts.\<close>

definition arg_markup :: "string \<Rightarrow> string \<Rightarrow> string \<Rightarrow> string \<Rightarrow> string" where
  "arg_markup cls name type desc =
     (''<span class='' @ [CHR 0x27]) @ cls @ ''name'>'' @ name @
     ''</span> <span class='argtype'>('' @ type @ '')</span> &ndash; '' @ desc @ ''<br/>''"

definition arg_parts_ok :: "string \<Rightarrow> string \<Rightarrow> string \<Rightarrow> string \<Rightarrow> bool" where
  "arg_parts_ok cls name type desc =
     (cls \<noteq> [] \<and> CHR 0x27 \<notin> set cls \<and> name \<noteq> [] \<and> CHR ''<'' \<notin> set name \<and>
      type \<noteq> [] \<and> CHR ''<'' \<notin> set type \<and> (\<forall>c\<in>set desc. \<not> is_line_terminator c))"

text \<open>\<open>contains s pat\<close>: the string \<open>pat\<close> occurs in \<open>s\<close>.\<close>

definition contains :: "string \<Rightarrow> string \<Rightarrow> bool" where
  "contains s pat = (\<exists>p q. s = p @ pat @ q)"

text \<open>The text before the first occurrence of \<open>pat\<close>; all of it when there is none.\<close>

fun before_first :: "string \<Rightarrow> string \<Rightarrow> string" where
  "before_first pat [] = []"
| "before_first pat (x # xs) = (if prefix pat (x # xs) then [] else x # before_first pat xs)"

definition example_args :: string where
  "example_args = ''<span class='foo name'>x</span> <span class='argtype'>(number, optional)</span> &ndash; desc<br/>''"

text \<open>The markers of an example block.\<close>

definition example_open :: string where
  "example_open = ''<pre class='example'>''"

definition example_close :: string where
  "example_close = ''</pre>''"

definition two_examples :: string where
  "two_examples =
     ''<h3>f</h3><p><p><p>text<p>see <pre class='example'> one() </pre> and <pre class='example'>two()</pre>''"

section \<open>The matcher and what it matches\<close>

lemma orelse_Some: "orelse a b = Some r \<longleftrightarrow> a = Some r \<or> (a = None \<and> b = Some r)"
  by (cases a) (auto simp: orelse_def)

lemma orelse_None: "orelse a b = None \<longleftrightarrow> a = None \<and> b = None"
  by (cases a) (auto simp: orelse_def)

lemma rep_sound:
  "rep q k p cont acc s = Some r \<Longrightarrow>
   \<exists>u v. s = u @ v \<and> (\<forall>c\<in>set u. p c) \<and> k \<le> length (acc @ u) \<and> cont (acc @ u) v = Some r"
proof (induction s arbitrary: acc)
  case Nil
  then show ?case by (auto split: if_splits)
next
  case (Cons x xs)
  have stop: "k \<le> length acc \<and> cont acc (x # xs) = Some r \<Longrightarrow> ?case"
    by (intro exI[of _ "[]"] exI[of _ "x # xs"]) simp
  have more: "p x \<and> rep q k p cont (acc @ [x]) xs = Some r \<Longrightarrow> ?case"
  proof -
    assume a: "p x \<and> rep q k p cont (acc @ [x]) xs = Some r"
    from Cons.IH[of "acc @ [x]"] a obtain u v where
      "xs = u @ v" "\<forall>c\<in>set u. p c" "k \<le> length ((acc @ [x]) @ u)" "cont ((acc @ [x]) @ u) v = Some r"
      by blast
    with a show ?case by (intro exI[of _ "x # u"] exI[of _ v]) simp
  qed
  from Cons.prems have
    "(k \<le> length acc \<and> cont acc (x # xs) = Some r) \<or>
     (p x \<and> rep q k p cont (acc @ [x]) xs = Some r)"
    by (cases q) (auto simp: orelse_Some split: if_splits)
  then show ?case using stop more by blast
qed

lemma rep_complete:
  "(\<forall>c\<in>set u. p c) \<Longrightarrow> k \<le> length (acc @ u) \<Longrightarrow> cont (acc @ u) v \<noteq> None \<Longrightarrow>
   rep q k p cont acc (u @ v) \<noteq> None"
proof (induction u arbitrary: acc)
  case Nil
  then show ?case by (cases v; cases q) (auto simp: orelse_None)
next
  case (Cons x u)
  from Cons.IH[of "acc @ [x]"] Cons.prems
  have "rep q k p cont (acc @ [x]) (u @ v) \<noteq> None" by simp
  with Cons.prems show ?case by (cases q) (auto simp: orelse_None)
qed

lemma bt_sound: "bt ns s = Some (caps, rest) \<Longrightarrow> \<exists>w. s = w @ rest \<and> lc ns w caps"
proof (induction ns arbitrary: s caps)
  case Nil
  then show ?case by simp
next
  case (Cons n ns)
  show ?case
  proof (cases n)
    case (Lit l)
    with Cons.prems have p: "prefix l s" and b: "bt ns (drop (length l) s) = Some (caps, rest)"
      by (auto split: if_splits)
    from Cons.IH[OF b] obtain w where w: "drop (length l) s = w @ rest" "lc ns w caps" by blast
    from p have "s = l @ drop (length l) s" by (auto simp: prefix_def)
    with w Lit show ?thesis by (intro exI[of _ "l @ w"]) auto
  next
    case (Opt c)
    from Cons.prems Opt consider
      (a) xs where "s = c # xs" "bt ns xs = Some (caps, rest)" | (b) "bt ns s = Some (caps, rest)"
      by (auto simp: orelse_Some split: list.splits if_splits)
    then show ?thesis
    proof cases
      case a
      from Cons.IH[OF a(2)] obtain w where "xs = w @ rest" "lc ns w caps" by blast
      with a Opt show ?thesis by (intro exI[of _ "c # w"]) simp
    next
      case b
      from Cons.IH[OF b] Opt show ?thesis by auto
    qed
  next
    case (Rep q k p)
    with Cons.prems have "rep q k p (\<lambda>u r. bt ns r) [] s = Some (caps, rest)" by simp
    from rep_sound[OF this] obtain u v where
      uv: "s = u @ v" "\<forall>c\<in>set u. p c" "k \<le> length u" "bt ns v = Some (caps, rest)" by auto
    from Cons.IH[OF uv(4)] obtain w where "v = w @ rest" "lc ns w caps" by blast
    with uv Rep show ?thesis by (intro exI[of _ "u @ w"]) auto
  next
    case (Grp q k p)
    with Cons.prems have
      "rep q k p (\<lambda>u r. map_option (\<lambda>(caps, rest). (u # caps, rest)) (bt ns r)) [] s = Some (caps, rest)"
      by simp
    from rep_sound[OF this] obtain u v where
      uv: "s = u @ v" "\<forall>c\<in>set u. p c" "k \<le> length u"
        "map_option (\<lambda>(caps, rest). (u # caps, rest)) (bt ns v) = Some (caps, rest)" by auto
    then obtain cs where cs: "bt ns v = Some (cs, rest)" "caps = u # cs" by auto
    from Cons.IH[OF cs(1)] obtain w where "v = w @ rest" "lc ns w cs" by blast
    with uv cs Grp show ?thesis by (intro exI[of _ "u @ w"]) auto
  qed
qed

lemma bt_complete: "lc ns w caps \<Longrightarrow> bt ns (w @ rest) \<noteq> None"
proof (induction ns arbitrary: w caps)
  case Nil
  then show ?case by simp
next
  case (Cons n ns)
  show ?case
  proof (cases n)
    case (Lit l)
    with Cons.prems obtain v where "w = l @ v" "lc ns v caps" by auto
    with Cons.IH[of v caps] Lit show ?thesis by simp
  next
    case (Opt c)
    with Cons.prems consider (a) "lc ns w caps" | (b) v where "w = c # v" "lc ns v caps" by auto
    then show ?thesis
    proof cases
      case a
      with Cons.IH[of w caps] Opt show ?thesis by (simp add: orelse_None)
    next
      case b
      with Cons.IH[of v caps] Opt show ?thesis by (simp add: orelse_None)
    qed
  next
    case (Rep q k p)
    with Cons.prems obtain u v where
      uv: "w = u @ v" "k \<le> length u" "\<forall>c\<in>set u. p c" "lc ns v caps" by auto
    from Cons.IH[OF uv(4)] have "bt ns (v @ rest) \<noteq> None" .
    with uv have "rep q k p (\<lambda>u r. bt ns r) [] (u @ (v @ rest)) \<noteq> None"
      by (intro rep_complete) simp_all
    with uv Rep show ?thesis by simp
  next
    case (Grp q k p)
    with Cons.prems obtain u v cs where
      uv: "w = u @ v" "k \<le> length u" "\<forall>c\<in>set u. p c" "lc ns v cs" by auto
    from Cons.IH[OF uv(4)] have "bt ns (v @ rest) \<noteq> None" .
    with uv have "rep q k p (\<lambda>u r. map_option (\<lambda>(caps, rest). (u # caps, rest)) (bt ns r)) []
                    (u @ (v @ rest)) \<noteq> None"
      by (intro rep_complete) simp_all
    with uv Grp show ?thesis by simp
  qed
qed

lemma search_SomeD:
  "search ns s = Some m \<Longrightarrow>
   \<exists>rest. bt ns (drop (index m) s) = Some (groups m, rest) \<and> drop (index m) s = whole m @ rest \<and>
          index m \<le> length s \<and> (\<forall>i<index m. bt ns (drop i s) = None)"
proof (induction s arbitrary: m)
  case Nil
  then obtain caps rest where b: "bt ns [] = Some (caps, rest)"
    and m: "m = \<lparr>index = 0, whole = [], groups = caps\<rparr>"
    by (auto split: option.splits)
  from bt_sound[OF b] have "rest = []" by simp
  with b m show ?case by simp
next
  case (Cons x xs)
  show ?case
  proof (cases "bt ns (x # xs)")
    case (Some cr)
    obtain caps rest where cr: "cr = (caps, rest)" by (cases cr)
    from Some cr Cons.prems have
      m: "m = \<lparr>index = 0, whole = take (length (x # xs) - length rest) (x # xs), groups = caps\<rparr>"
      by simp
    from bt_sound[OF Some[unfolded cr]] obtain w where w: "x # xs = w @ rest" by blast
    then have "take (length (x # xs) - length rest) (x # xs) = w" by simp
    with m w Some cr show ?thesis by simp
  next
    case None
    with Cons.prems obtain m' where m': "search ns xs = Some m'" and m: "m = m'\<lparr>index := Suc (index m')\<rparr>"
      by auto
    from Cons.IH[OF m'] obtain rest where
      r: "bt ns (drop (index m') xs) = Some (groups m', rest)" "drop (index m') xs = whole m' @ rest"
         "index m' \<le> length xs" "\<forall>i<index m'. bt ns (drop i xs) = None" by blast
    have "\<forall>i<Suc (index m'). bt ns (drop i (x # xs)) = None"
    proof (intro allI impI)
      fix i assume "i < Suc (index m')"
      with r(4) None show "bt ns (drop i (x # xs)) = None" by (cases i) auto
    qed
    with r m show ?thesis by simp
  qed
qed

lemma search_NoneD: "search ns s = None \<Longrightarrow> i \<le> length s \<Longrightarrow> bt ns (drop i s) = None"
proof (induction s arbitrary: i)
  case Nil
  then show ?case by (auto split: option.splits)
next
  case (Cons x xs)
  from Cons.prems(1) have n: "bt ns (x # xs) = None" and s: "search ns xs = None"
    by (auto split: option.splits)
  show ?case
  proof (cases i)
    case 0
    with n show ?thesis by simp
  next
    case (Suc j)
    with Cons.IH[OF s, of j] Cons.prems(2) show ?thesis by simp
  qed
qed

lemma search_None_iff:
  "search ns s = None \<longleftrightarrow> (\<forall>p w q. s = p @ w @ q \<longrightarrow> \<not> lang ns w)"
proof
  assume n: "search ns s = None"
  show "\<forall>p w q. s = p @ w @ q \<longrightarrow> \<not> lang ns w"
  proof (intro allI impI notI)
    fix p w q assume s: "s = p @ w @ q" and "lang ns w"
    then obtain caps where "lc ns w caps" by (auto simp: lang_def)
    from bt_complete[OF this, of q] have "bt ns (w @ q) \<noteq> None" .
    moreover from search_NoneD[OF n, of "length p"] s have "bt ns (w @ q) = None" by simp
    ultimately show False by simp
  qed
next
  assume a: "\<forall>p w q. s = p @ w @ q \<longrightarrow> \<not> lang ns w"
  show "search ns s = None"
  proof (rule ccontr)
    assume "search ns s \<noteq> None"
    then obtain m where m: "search ns s = Some m" by auto
    from search_SomeD[OF m] obtain rest where
      r: "bt ns (drop (index m) s) = Some (groups m, rest)" "drop (index m) s = whole m @ rest"
      by blast
    from bt_sound[OF r(1)] r(2) have "lc ns (whole m) (groups m)" by auto
    then have "lang ns (whole m)" by (auto simp: lang_def)
    moreover have "s = take (index m) s @ whole m @ rest"
      using r(2) by (metis append_take_drop_id)
    ultimately show False using a by blast
  qed
qed

lemma search_whole:
  assumes "search ns s = Some m"
  shows "s = take (index m) s @ whole m @ drop (index m + length (whole m)) s"
    and "lc ns (whole m) (groups m)"
    and "index m + length (whole m) \<le> length s"
    and "\<And>p w q. s = p @ w @ q \<Longrightarrow> lang ns w \<Longrightarrow> index m \<le> length p"
    and "whole m = take (length (whole m)) (drop (index m) s)"
proof -
  from search_SomeD[OF assms] obtain rest where
    r: "bt ns (drop (index m) s) = Some (groups m, rest)" "drop (index m) s = whole m @ rest"
       "index m \<le> length s" "\<forall>i<index m. bt ns (drop i s) = None" by blast
  from bt_sound[OF r(1)] r(2) show "lc ns (whole m) (groups m)" by auto
  have "drop (index m + length (whole m)) s = rest"
    using r(2) by (metis add.commute append_eq_conv_conj drop_drop)
  with r(2) show "s = take (index m) s @ whole m @ drop (index m + length (whole m)) s"
    by (metis append_take_drop_id)
  have "length (drop (index m) s) = length (whole m) + length rest" using r(2) by simp
  with r(3) show "index m + length (whole m) \<le> length s" by simp
  fix p w q assume s: "s = p @ w @ q" and "lang ns w"
  then obtain caps where "lc ns w caps" by (auto simp: lang_def)
  from bt_complete[OF this, of q] have "bt ns (w @ q) \<noteq> None" .
  with s have "bt ns (drop (length p) s) \<noteq> None" by simp
  with r(4) show "index m \<le> length p" by (meson not_le)
next
  from search_SomeD[OF assms] obtain rest where "drop (index m) s = whole m @ rest" by blast
  then show "whole m = take (length (whole m)) (drop (index m) s)" by simp
qed

declare matchAll_from.simps [simp del]

lemma matchAll_from_None: "search ns s = None \<Longrightarrow> matchAll_from ns off s = []"
  by (subst matchAll_from.simps) simp

lemma matchAll_from_Some:
  "search ns s = Some m \<Longrightarrow> whole m \<noteq> [] \<Longrightarrow>
   matchAll_from ns off s =
     m\<lparr>index := off + index m\<rparr> #
       matchAll_from ns (off + index m + length (whole m)) (drop (index m + length (whole m)) s)"
  by (subst matchAll_from.simps) simp

lemma matchAll_from_eq_Nil: "matchAll_from ns off s = [] \<longleftrightarrow> search ns s = None"
  by (subst matchAll_from.simps) (simp split: option.splits)

lemma matchAll_from_Some_empty:
  "search ns s = Some m \<Longrightarrow> whole m = [] \<Longrightarrow>
   matchAll_from ns off s =
     m\<lparr>index := off + index m\<rparr> #
       (if index m < length s
        then matchAll_from ns (off + index m + 1) (drop (index m + 1) s) else [])"
  by (subst matchAll_from.simps) simp

lemma matchAll_from_props:
  "m \<in> set (matchAll_from ns off s) \<Longrightarrow>
   lc ns (whole m) (groups m) \<and> off \<le> index m \<and> index m + length (whole m) \<le> off + length s \<and>
   whole m = take (length (whole m)) (drop (index m - off) s)"
proof (induction "length s" arbitrary: s off rule: less_induct)
  case less
  show ?case
  proof (cases "search ns s")
    case None
    with less.prems show ?thesis by (simp add: matchAll_from_None)
  next
    case (Some m0)
    note w = search_whole[OF Some]
    note here = w(5)
    define e where "e = (if whole m0 = [] then index m0 + 1 else index m0 + length (whole m0))"
    have e: "0 < e" "index m0 + length (whole m0) \<le> e" by (auto simp: e_def)
    from less.prems Some consider (a) "m = m0\<lparr>index := off + index m0\<rparr>"
      | (b) "e \<le> length s" "m \<in> set (matchAll_from ns (off + e) (drop e s))"
    proof (cases "whole m0 = []")
      case True
      with less.prems Some that show ?thesis
        by (auto simp: matchAll_from_Some_empty e_def add.assoc split: if_splits)
    next
      case False
      with less.prems Some that w(3) show ?thesis
        by (auto simp: matchAll_from_Some e_def add.assoc)
    qed
    then show ?thesis
    proof cases
      case a
      have io: "index m - off = index m0" and wm: "whole m = whole m0" by (simp_all add: a)
      have 4: "whole m = take (length (whole m)) (drop (index m - off) s)"
        unfolding io wm by (rule here)
      have "lc ns (whole m) (groups m)" "off \<le> index m" "index m + length (whole m) \<le> off + length s"
        using w(2,3) a by simp_all
      with 4 show ?thesis by blast
    next
      case b
      have "length (drop e s) < length s" using b(1) e(1) by simp
      from less.hyps[OF this b(2)] have
        ih: "lc ns (whole m) (groups m)" "off + e \<le> index m"
            "index m + length (whole m) \<le> off + e + length (drop e s)"
            "whole m = take (length (whole m)) (drop (index m - (off + e)) (drop e s))"
        by blast+
      have eq: "index m - (off + e) + e = index m - off" using ih(2) by linarith
      note ih(4)[unfolded drop_drop eq]
      moreover have "index m + length (whole m) \<le> off + length s"
        using ih(3) b(1) by simp
      moreover have "off \<le> index m" using ih(2) by simp
      ultimately show ?thesis using ih(1) by blast
    qed
  qed
qed

lemma lc_NilI: "lc [] [] []"
  by simp

lemma lc_LitI: "lc ns v caps \<Longrightarrow> lc (Lit l # ns) (l @ v) caps"
  by auto

lemma lc_Lit_lastI: "lc [Lit l] l []"
  by simp

lemma lc_RepI:
  "k \<le> length u \<Longrightarrow> \<forall>c\<in>set u. p c \<Longrightarrow> lc ns v caps \<Longrightarrow> lc (Rep q k p # ns) (u @ v) caps"
  by auto

lemma lc_GrpI:
  "k \<le> length u \<Longrightarrow> \<forall>c\<in>set u. p c \<Longrightarrow> lc ns v cs \<Longrightarrow> lc (Grp q k p # ns) (u @ v) (u # cs)"
  by auto

lemma lc_NilE: "lc [] w caps \<Longrightarrow> (w = [] \<Longrightarrow> caps = [] \<Longrightarrow> P) \<Longrightarrow> P"
  by simp

lemma lc_LitE: "lc (Lit l # ns) w caps \<Longrightarrow> (\<And>v. w = l @ v \<Longrightarrow> lc ns v caps \<Longrightarrow> P) \<Longrightarrow> P"
  by auto

lemma lc_RepE:
  "lc (Rep q k p # ns) w caps \<Longrightarrow>
   (\<And>u v. w = u @ v \<Longrightarrow> k \<le> length u \<Longrightarrow> \<forall>c\<in>set u. p c \<Longrightarrow> lc ns v caps \<Longrightarrow> P) \<Longrightarrow> P"
  by auto

lemma lc_GrpE:
  "lc (Grp q k p # ns) w caps \<Longrightarrow>
   (\<And>u v cs. w = u @ v \<Longrightarrow> k \<le> length u \<Longrightarrow> \<forall>c\<in>set u. p c \<Longrightarrow> caps = u # cs \<Longrightarrow>
      lc ns v cs \<Longrightarrow> P) \<Longrightarrow> P"
  by auto

lemma lc_OptE:
  "lc (Opt c # ns) w caps \<Longrightarrow> (lc ns w caps \<Longrightarrow> P) \<Longrightarrow>
   (\<And>v. w = c # v \<Longrightarrow> lc ns v caps \<Longrightarrow> P) \<Longrightarrow> P"
  by auto

lemmas lcE = lc_NilE lc_LitE lc_RepE lc_GrpE lc_OptE

lemma matchAll_from_sorted:
  "sorted_wrt (\<lambda>m m'. index m + length (whole m) \<le> index m') (matchAll_from ns off s)"
proof (induction "length s" arbitrary: s off rule: less_induct)
  case less
  show ?case
  proof (cases "search ns s")
    case None
    then show ?thesis by (simp add: matchAll_from_None)
  next
    case (Some m0)
    note w = search_whole[OF Some]
    show ?thesis
    proof (cases "whole m0 = []")
      case True
      show ?thesis
      proof (cases "index m0 < length s")
        case l: True
        let ?r = "matchAll_from ns (off + index m0 + 1) (drop (index m0 + 1) s)"
        have "length (drop (index m0 + 1) s) < length s" using l by simp
        from less.hyps[OF this] have 1: "sorted_wrt (\<lambda>m m'. index m + length (whole m) \<le> index m') ?r" .
        have 2: "\<forall>m\<in>set ?r. off + index m0 \<le> index m"
        proof
          fix m assume "m \<in> set ?r"
          from matchAll_from_props[OF this] have "off + index m0 + 1 \<le> index m" by blast
          then show "off + index m0 \<le> index m" by simp
        qed
        from 1 2 True l Some show ?thesis by (simp add: matchAll_from_Some_empty)
      next
        case False
        with True Some show ?thesis by (simp add: matchAll_from_Some_empty)
      qed
    next
      case False
      let ?e = "index m0 + length (whole m0)"
      let ?r = "matchAll_from ns (off + ?e) (drop ?e s)"
      have "s \<noteq> []" using w(3) False by auto
      then have "length (drop ?e s) < length s" using False by simp
      from less.hyps[OF this] have 1: "sorted_wrt (\<lambda>m m'. index m + length (whole m) \<le> index m') ?r" .
      have 2: "\<forall>m\<in>set ?r. off + ?e \<le> index m"
      proof
        fix m assume "m \<in> set ?r"
        from matchAll_from_props[OF this] show "off + ?e \<le> index m" by blast
      qed
      from 1 2 False Some show ?thesis by (simp add: matchAll_from_Some add.assoc)
    qed
  qed
qed

lemma matchAll_sorted:
  "sorted_wrt (\<lambda>m m'. index m + length (whole m) \<le> index m') (matchAll s ns)"
  unfolding matchAll_def by (rule matchAll_from_sorted)

lemma matchAll_props:
  assumes "m \<in> set (matchAll s ns)"
  shows "lc ns (whole m) (groups m)"
    and "take (length (whole m)) (drop (index m) s) = whole m"
    and "index m + length (whole m) \<le> length s"
  using matchAll_from_props[of m ns 0 s] assms unfolding matchAll_def by simp_all

lemma matchAll_eq_Nil: "matchAll s ns = [] \<longleftrightarrow> (\<forall>p w q. s = p @ w @ q \<longrightarrow> \<not> lang ns w)"
  unfolding matchAll_def matchAll_from_eq_Nil search_None_iff ..

lemma rep_lazy_min:
  "rep Lazy k p cont acc s = Some r \<Longrightarrow> s = u @ v \<Longrightarrow> k \<le> length (acc @ u) \<Longrightarrow>
   cont (acc @ u) v \<noteq> None \<Longrightarrow>
   \<exists>u' v'. s = u' @ v' \<and> length u' \<le> length u \<and> (\<forall>c\<in>set u'. p c) \<and>
           k \<le> length (acc @ u') \<and> cont (acc @ u') v' = Some r"
proof (induction s arbitrary: acc u)
  case Nil
  then show ?case by (auto split: if_splits)
next
  case (Cons x xs)
  let ?first = "if k \<le> length acc then cont acc (x # xs) else None"
  show ?case
  proof (cases ?first)
    case (Some r')
    with Cons.prems(1) have "r' = r" by (simp add: orelse_def)
    with Some have "k \<le> length acc" "cont acc (x # xs) = Some r" by (auto split: if_splits)
    then show ?thesis by (intro exI[of _ "[]"] exI[of _ "x # xs"]) simp
  next
    case None
    have "u \<noteq> []"
    proof
      assume "u = []"
      with Cons.prems(2,3,4) None show False by (auto split: if_splits)
    qed
    then obtain u1 where u: "u = x # u1" and xs: "xs = u1 @ v"
      using Cons.prems(2) by (cases u) auto
    from None Cons.prems(1) have px: "p x" and r: "rep Lazy k p cont (acc @ [x]) xs = Some r"
      by (auto simp: orelse_def split: if_splits)
    from Cons.IH[OF r xs, of] Cons.prems(3,4) u obtain u' v' where
      "xs = u' @ v'" "length u' \<le> length u1" "\<forall>c\<in>set u'. p c"
      "k \<le> length ((acc @ [x]) @ u')" "cont ((acc @ [x]) @ u') v' = Some r"
      by auto
    with px u show ?thesis by (intro exI[of _ "x # u'"] exI[of _ v']) simp
  qed
qed

lemma bt_Grp_lazy_min:
  assumes "bt (Grp Lazy k p # ns) s = Some (caps, rest)"
    and "s = u @ v" and "k \<le> length u" and "bt ns v \<noteq> None"
  shows "\<exists>u' v' cs. s = u' @ v' \<and> length u' \<le> length u \<and> (\<forall>c\<in>set u'. p c) \<and> k \<le> length u' \<and>
           caps = u' # cs \<and> bt ns v' = Some (cs, rest)"
proof -
  let ?cont = "\<lambda>u r. map_option (\<lambda>(caps, rest). (u # caps, rest)) (bt ns r)"
  from assms(1) have r: "rep Lazy k p ?cont [] s = Some (caps, rest)" by simp
  have "?cont ([] @ u) v \<noteq> None" using assms(4) by simp
  from rep_lazy_min[OF r assms(2) _ this] assms(3) obtain u' v' where
    1: "s = u' @ v'" "length u' \<le> length u" "\<forall>c\<in>set u'. p c" "k \<le> length u'"
    and 2: "?cont ([] @ u') v' = Some (caps, rest)" by auto
  from 2 obtain cs where "bt ns v' = Some (cs, rest)" "caps = u' # cs" by auto
  with 1 show ?thesis by blast
qed

lemma bt_Rep_lazy_min:
  assumes "bt (Rep Lazy k p # ns) s = Some (caps, rest)"
    and "s = u @ v" and "k \<le> length u" and "bt ns v \<noteq> None"
  shows "\<exists>u' v'. s = u' @ v' \<and> length u' \<le> length u \<and> (\<forall>c\<in>set u'. p c) \<and> k \<le> length u' \<and>
           bt ns v' = Some (caps, rest)"
proof -
  let ?cont = "\<lambda>u r. bt ns r"
  from assms(1) have r: "rep Lazy k p ?cont [] s = Some (caps, rest)" by simp
  have "?cont ([] @ u) v \<noteq> None" using assms(4) by simp
  from rep_lazy_min[OF r assms(2) _ this] assms(3) show ?thesis by auto
qed

lemma bt_Lit: "bt (Lit l # ns) (l @ s) = bt ns s"
  by simp

lemma bt_Lit_Some:
  "bt (Lit l # ns) s = Some r \<Longrightarrow> \<exists>v. s = l @ v \<and> bt ns v = Some r"
  by (auto simp: prefix_def split: if_splits)

lemma split_from_ne: "split_from sep acc s \<noteq> []"
  by (induction sep acc s rule: split_from.induct) auto

section \<open>The text reflower\<close>

lemma bt_Nil_fun: "bt [] = (\<lambda>r. Some ([], r))"
  by (rule ext) simp

lemma rep_greedy_plain:
  "rep Greedy k p (\<lambda>u r. Some (c, r)) acc s =
     (if k \<le> length acc + length (takeWhile p s) then Some (c, dropWhile p s) else None)"
proof (induction s arbitrary: acc)
  case Nil
  show ?case by simp
next
  case (Cons x xs)
  show ?case by (simp add: Cons.IH orelse_def)
qed

lemma bt_spaceRegex:
  "bt spaceRegex (x # xs) = (if is_space x then Some ([], dropWhile is_space xs) else None)"
  by (simp add: spaceRegex_def bt_Nil_fun rep_greedy_plain orelse_def)

lemma bt_spaceRegex_Nil: "bt spaceRegex [] = None"
  by (simp add: spaceRegex_def)

lemma split_re_from_space:
  "split_re_from spaceRegex acc (x # xs) =
     (if is_space x then acc # split_re_from spaceRegex [] (dropWhile is_space xs)
      else split_re_from spaceRegex (acc @ [x]) xs)"
  by (simp add: bt_spaceRegex le_imp_less_Suc length_dropWhile_le)

lemma split_re_from_space_free:
  "\<forall>c\<in>set acc. \<not> is_space c \<Longrightarrow>
   \<forall>w\<in>set (split_re_from spaceRegex acc s). \<forall>c\<in>set w. \<not> is_space c"
proof (induction "length s" arbitrary: s acc rule: less_induct)
  case less
  show ?case
  proof (cases s)
    case Nil
    with less.prems show ?thesis by simp
  next
    case (Cons x xs)
    show ?thesis
    proof (cases "is_space x")
      case True
      have "length (dropWhile is_space xs) < length s"
        using Cons by (simp add: le_imp_less_Suc length_dropWhile_le)
      from less.hyps[OF this, of "[]"] True less.prems Cons show ?thesis
        by (simp add: split_re_from_space del: split_re_from.simps)
    next
      case False
      have "length xs < length s" using Cons by simp
      from less.hyps[OF this, of "acc @ [x]"] False less.prems Cons show ?thesis
        by (simp add: split_re_from_space del: split_re_from.simps)
    qed
  qed
qed

lemma split_re_space_free:
  "w \<in> set (split_re d spaceRegex) \<Longrightarrow> c \<in> set w \<Longrightarrow> \<not> is_space c"
  using split_re_from_space_free[of "[]" d]
  by (auto simp: split_re_def bt_spaceRegex_Nil split: if_splits)

lemma join_snoc: "ls \<noteq> [] \<Longrightarrow> join (ls @ [l]) sep = join ls sep @ sep @ l"
  by (induction ls sep rule: join.induct) auto

lemma join_eq_Nil: "ls \<noteq> [] \<Longrightarrow> hd ls \<noteq> [] \<Longrightarrow> join ls sep \<noteq> []"
  by (induction ls sep rule: join.induct) auto

lemma loop_pack:
  "ls \<noteq> [] \<longrightarrow> hd ls \<noteq> [] \<Longrightarrow>
   (case formatDescription_loop ws cl (join ls [CHR 0x0A]) of
      (currentLine, formattedDescription) \<Rightarrow>
        if currentLine \<noteq> []
        then formattedDescription @ (if formattedDescription \<noteq> [] then [CHR 0x0A] else [])
               @ currentLine
        else formattedDescription) = join (pack ws cl ls) [CHR 0x0A]"
proof (induction ws arbitrary: cl ls)
  case Nil
  then show ?case by (cases "ls = []") (auto simp: join_snoc join_eq_Nil)
next
  case (Cons w ws)
  show ?case
  proof (cases "length cl + length w + 1 \<le> 80")
    case True
    with Cons.IH[OF Cons.prems] show ?thesis by simp
  next
    case False
    show ?thesis
    proof (cases "ls = []")
      case True
      show ?thesis
      proof (cases "cl = []")
        case True
        with \<open>ls = []\<close> False Cons.IH[of "[]" w] show ?thesis by simp
      next
        case cl: False
        with True False Cons.IH[of "[cl]" w] show ?thesis by simp
      qed
    next
      case ls: False
      with Cons.prems have "join ls [CHR 0x0A] \<noteq> []" by (simp add: join_eq_Nil)
      moreover have "ls @ [cl] \<noteq> [] \<longrightarrow> hd (ls @ [cl]) \<noteq> []" using ls Cons.prems by simp
      ultimately show ?thesis using False ls Cons.IH[of "ls @ [cl]" w]
        by (simp add: join_snoc)
    qed
  qed
qed

lemma formatDescription_pack:
  "formatDescription d = join (pack (split_re d spaceRegex) [] []) [CHR 0x0A]"
  using loop_pack[of "[]" "split_re d spaceRegex" "[]"]
  by (simp add: formatDescription_def)

lemma split_from_single:
  "split_from [c] acc (a @ c # b) = split_from [c] acc a @ split_from [c] [] b"
  by (induction a arbitrary: acc) auto

lemma split_from_no_sep: "c \<notin> set a \<Longrightarrow> split_from [c] acc a = [acc @ a]"
  by (induction a arbitrary: acc) auto

lemma lines_of_join:
  "ls \<noteq> [] \<Longrightarrow> \<forall>l\<in>set ls. CHR 0x0A \<notin> set l \<Longrightarrow> lines_of (join ls [CHR 0x0A]) = ls"
proof (induction ls "[CHR 0x0A]" rule: join.induct)
  case 1
  then show ?case by simp
next
  case (2 x)
  then show ?case by (simp add: lines_of_def split_def split_from_no_sep)
next
  case (3 x y ys)
  then show ?case
    using split_from_single[of "CHR 0x0A" "[]" x "join (y # ys) [CHR 0x0A]"]
    by (simp add: lines_of_def split_def split_from_no_sep)
qed

lemma ne_split_dropWhile:
  "filter (\<lambda>w. w \<noteq> []) (split_re_from spaceRegex [] (dropWhile is_space xs)) =
   filter (\<lambda>w. w \<noteq> []) (split_re_from spaceRegex [] xs)"
proof (induction xs)
  case Nil
  show ?case by simp
next
  case (Cons y ys)
  then show ?case by (simp add: split_re_from_space del: split_re_from.simps)
qed

lemma ne_split_step:
  "filter (\<lambda>w. w \<noteq> []) (split_re_from spaceRegex acc (x # xs)) =
     (if is_space x
      then filter (\<lambda>w. w \<noteq> []) [acc] @ filter (\<lambda>w. w \<noteq> []) (split_re_from spaceRegex [] xs)
      else filter (\<lambda>w. w \<noteq> []) (split_re_from spaceRegex (acc @ [x]) xs))"
  using ne_split_dropWhile[of xs]
  by (simp add: split_re_from_space del: split_re_from.simps)

lemma ne_split_append:
  "is_space sp \<Longrightarrow>
   filter (\<lambda>w. w \<noteq> []) (split_re_from spaceRegex acc (a @ sp # b)) =
   filter (\<lambda>w. w \<noteq> []) (split_re_from spaceRegex acc a) @
   filter (\<lambda>w. w \<noteq> []) (split_re_from spaceRegex [] b)"
proof (induction a arbitrary: acc)
  case Nil
  then show ?case by (simp add: ne_split_step del: split_re_from.simps) simp
next
  case (Cons x a)
  show ?case
    unfolding append_Cons ne_split_step using Cons.IH[OF Cons.prems] by simp
qed

lemma ne_split_word:
  "\<forall>c\<in>set w. \<not> is_space c \<Longrightarrow>
   filter (\<lambda>w. w \<noteq> []) (split_re_from spaceRegex acc w) = filter (\<lambda>w. w \<noteq> []) [acc @ w]"
proof (induction w arbitrary: acc)
  case Nil
  show ?case by simp
next
  case (Cons x w)
  then show ?case unfolding ne_split_step by simp
qed

lemma tokens_alt: "tokens s = filter (\<lambda>w. w \<noteq> []) (split_re_from spaceRegex [] s)"
  by (simp add: tokens_def split_re_def bt_spaceRegex_Nil)

lemma tokens_append: "is_space sp \<Longrightarrow> tokens (a @ sp # b) = tokens a @ tokens b"
  by (simp add: tokens_alt ne_split_append)

lemma tokens_word: "\<forall>c\<in>set w. \<not> is_space c \<Longrightarrow> tokens w = (if w = [] then [] else [w])"
  by (simp add: tokens_alt ne_split_word)

lemma tokens_join:
  "tokens (join ls [CHR 0x0A]) = concat (map tokens ls)"
proof (induction ls "[CHR 0x0A]" rule: join.induct)
  case 1
  show ?case by (simp add: tokens_word)
next
  case (2 x)
  show ?case by simp
next
  case (3 x y ys)
  have "is_space (CHR 0x0A)" by (simp add: is_space_def)
  from tokens_append[OF this, of x "join (y # ys) [CHR 0x0A]"] 3 show ?case by simp
qed

lemma pack_bound:
  "\<forall>l\<in>set ls. length l \<le> 80 \<or> l \<in> T \<Longrightarrow> length cl \<le> 80 \<or> cl \<in> T \<Longrightarrow> set ws \<subseteq> T \<Longrightarrow>
   \<forall>l\<in>set (pack ws cl ls). length l \<le> 80 \<or> l \<in> T"
proof (induction ws arbitrary: cl ls)
  case Nil
  then show ?case by auto
next
  case (Cons w ws)
  show ?case
  proof (cases "length cl + length w + 1 \<le> 80")
    case True
    then have "length (cl @ (if cl \<noteq> [] then '' '' else []) @ w) \<le> 80 \<or>
               cl @ (if cl \<noteq> [] then '' '' else []) @ w \<in> T" by simp
    from Cons.IH[OF Cons.prems(1) this] Cons.prems(3) True show ?thesis by simp
  next
    case False
    have 1: "\<forall>l\<in>set (if cl = [] \<and> ls = [] then [] else ls @ [cl]). length l \<le> 80 \<or> l \<in> T"
      using Cons.prems(1,2) by auto
    have 2: "length w \<le> 80 \<or> w \<in> T" using Cons.prems(3) by simp
    from Cons.IH[OF 1 2] Cons.prems(3) False show ?thesis by simp
  qed
qed

lemma pack_no_newline:
  "\<forall>l\<in>set ls. c \<notin> set l \<Longrightarrow> c \<notin> set cl \<Longrightarrow> \<forall>w\<in>set ws. c \<notin> set w \<Longrightarrow> c \<noteq> CHR '' '' \<Longrightarrow>
   \<forall>l\<in>set (pack ws cl ls). c \<notin> set l"
proof (induction ws arbitrary: cl ls)
  case Nil
  then show ?case by auto
next
  case (Cons w ws)
  show ?case
  proof (cases "length cl + length w + 1 \<le> 80")
    case True
    have "c \<notin> set (cl @ (if cl \<noteq> [] then '' '' else []) @ w)"
      using Cons.prems by auto
    from Cons.IH[OF Cons.prems(1) this] Cons.prems(3,4) True show ?thesis by simp
  next
    case False
    have 1: "\<forall>l\<in>set (if cl = [] \<and> ls = [] then [] else ls @ [cl]). c \<notin> set l"
      using Cons.prems(1,2) by auto
    have 2: "c \<notin> set w" using Cons.prems(3) by simp
    from Cons.IH[OF 1 2] Cons.prems(3,4) False show ?thesis by simp
  qed
qed

lemma pack_tokens:
  "\<forall>w\<in>set ws. \<forall>c\<in>set w. \<not> is_space c \<Longrightarrow>
   concat (map tokens (pack ws cl ls)) =
   concat (map tokens ls) @ tokens cl @ filter (\<lambda>w. w \<noteq> []) ws"
proof (induction ws arbitrary: cl ls)
  case Nil
  then show ?case by (simp add: tokens_word)
next
  case (Cons w ws)
  have w: "tokens w = (if w = [] then [] else [w])"
    using Cons.prems by (simp add: tokens_word)
  have sp: "is_space (CHR '' '')" by (simp add: is_space_def)
  have ih: "\<And>cl ls. concat (map tokens (pack ws cl ls)) =
     concat (map tokens ls) @ tokens cl @ filter (\<lambda>w. w \<noteq> []) ws"
    using Cons.IH Cons.prems by simp
  show ?case
  proof (cases "length cl + length w + 1 \<le> 80")
    case True
    have e: "tokens [] = []" by (simp add: tokens_word)
    have "tokens (cl @ (if cl \<noteq> [] then '' '' else []) @ w) = tokens cl @ tokens w"
      using tokens_append[OF sp, of cl w] e by (cases "cl = []") auto
    with True show ?thesis using w by (simp add: ih)
  next
    case False
    have "tokens [] = []" by (simp add: tokens_word)
    with False show ?thesis using w by (simp add: ih)
  qed
qed

lemma split_re_from_ne: "split_re_from ns acc s \<noteq> []"
  by (induction ns acc s rule: split_re_from.induct) (auto split: option.splits)

lemma split_butlast_nonempty:
  "acc \<noteq> [] \<or> s = [] \<or> \<not> is_space (hd s) \<Longrightarrow>
   \<forall>w\<in>set (butlast (split_re_from spaceRegex acc s)). w \<noteq> []"
proof (induction "length s" arbitrary: s acc rule: less_induct)
  case less
  show ?case
  proof (cases s)
    case Nil
    then show ?thesis by simp
  next
    case (Cons x xs)
    show ?thesis
    proof (cases "is_space x")
      case True
      with less.prems Cons have acc: "acc \<noteq> []" by simp
      let ?s' = "dropWhile is_space xs"
      have len: "length ?s' < length s"
        using Cons by (simp add: le_imp_less_Suc length_dropWhile_le)
      have "?s' = [] \<or> \<not> is_space (hd ?s')"
        by (metis hd_dropWhile)
      then have "[] \<noteq> [] \<or> ?s' = [] \<or> \<not> is_space (hd ?s')" by simp
      from less.hyps[OF len this] acc True Cons show ?thesis
        by (simp add: split_re_from_space split_re_from_ne del: split_re_from.simps)
    next
      case False
      have "length xs < length s" using Cons by simp
      from less.hyps[OF this, of "acc @ [x]"] False Cons show ?thesis
        by (simp add: split_re_from_space del: split_re_from.simps)
    qed
  qed
qed

lemma words_shape:
  "\<exists>ws. pack (split_re d spaceRegex) [] [] = pack ws [] [] \<and>
        (\<forall>w\<in>set (butlast ws). w \<noteq> []) \<and> (\<forall>w\<in>set ws. \<forall>c\<in>set w. \<not> is_space c)"
proof (cases d)
  case Nil
  have "pack (split_re d spaceRegex) [] [] = pack [] [] []"
    using Nil by (simp add: split_re_def bt_spaceRegex_Nil)
  then show ?thesis by (intro exI[of _ "[]"]) simp
next
  case (Cons x xs)
  show ?thesis
  proof (cases "is_space x")
    case True
    let ?R = "split_re_from spaceRegex [] (dropWhile is_space xs)"
    have w: "split_re d spaceRegex = [] # ?R"
      using Cons True by (simp add: split_re_def split_re_from_space del: split_re_from.simps)
    have "dropWhile is_space xs = [] \<or> \<not> is_space (hd (dropWhile is_space xs))"
      by (metis hd_dropWhile)
    then have 1: "\<forall>w\<in>set (butlast ?R). w \<noteq> []"
      by (intro split_butlast_nonempty) simp
    have 2: "\<forall>w\<in>set ?R. \<forall>c\<in>set w. \<not> is_space c"
      by (rule split_re_from_space_free) simp
    have "pack (split_re d spaceRegex) [] [] = pack ?R [] []" by (simp add: w)
    with 1 2 show ?thesis by blast
  next
    case False
    let ?R = "split_re d spaceRegex"
    have R: "?R = split_re_from spaceRegex [] d" using Cons by (simp add: split_re_def)
    have 1: "\<forall>w\<in>set (butlast ?R). w \<noteq> []"
      unfolding R using False Cons by (intro split_butlast_nonempty) simp
    have 2: "\<forall>w\<in>set ?R. \<forall>c\<in>set w. \<not> is_space c"
      using split_re_space_free by blast
    from 1 2 show ?thesis by blast
  qed
qed

lemma pack_greedy:
  assumes "\<forall>w\<in>set ws. \<forall>c\<in>set w. \<not> is_space c"
    and "\<forall>w\<in>set (butlast ws). w \<noteq> []"
    and "successively (\<lambda>l l'. \<not> would_fit l (hd (tokens l'))) ls"
    and "[] \<notin> set ls"
    and "ls \<noteq> [] \<and> cl \<noteq> [] \<longrightarrow> \<not> would_fit (last ls) (hd (tokens cl))"
    and "cl \<noteq> [] \<longrightarrow> tokens cl \<noteq> []"
    and "ws = [] \<or> cl \<noteq> [] \<or> ls = []"
  shows "successively (\<lambda>l l'. \<not> would_fit l (hd (tokens l'))) (pack ws cl ls) \<and>
         [] \<notin> set (pack ws cl ls)"
  using assms
proof (induction ws arbitrary: cl ls)
  case Nil
  then show ?case by (auto simp: successively_append_iff)
next
  case (Cons w ws)
  let ?G = "\<lambda>l l'. \<not> would_fit l (hd (tokens l'))"
  have wfree: "\<forall>c\<in>set w. \<not> is_space c" and wsfree: "\<forall>w\<in>set ws. \<forall>c\<in>set w. \<not> is_space c"
    using Cons.prems(1) by simp_all
  have tw: "tokens w = (if w = [] then [] else [w])" using wfree by (simp add: tokens_word)
  have bl: "\<forall>w\<in>set (butlast ws). w \<noteq> []" using Cons.prems(2) by (auto split: if_splits)
  have wne: "ws \<noteq> [] \<Longrightarrow> w \<noteq> []" using Cons.prems(2) by auto
  have v: "cl \<noteq> [] \<or> ls = []" using Cons.prems(7) by simp
  have sp: "is_space (CHR '' '')" by (simp add: is_space_def)
  have e: "tokens [] = []" by (simp add: tokens_word)
  show ?case
  proof (cases "length cl + length w + 1 \<le> 80")
    case True
    let ?cl = "cl @ (if cl \<noteq> [] then '' '' else []) @ w"
    have tk: "tokens ?cl = tokens cl @ tokens w"
      using tokens_append[OF sp, of cl w] e by (cases "cl = []") auto
    have 5: "ls \<noteq> [] \<and> ?cl \<noteq> [] \<longrightarrow> ?G (last ls) ?cl"
    proof
      assume a: "ls \<noteq> [] \<and> ?cl \<noteq> []"
      with v have c: "cl \<noteq> []" by simp
      with Cons.prems(6) have "tokens cl \<noteq> []" by simp
      then have "hd (tokens ?cl) = hd (tokens cl)" unfolding tk by simp
      with Cons.prems(5) a c show "?G (last ls) ?cl" by simp
    qed
    have 6: "?cl \<noteq> [] \<longrightarrow> tokens ?cl \<noteq> []"
      unfolding tk using Cons.prems(6) tw by (cases "cl = []") auto
    have 7: "ws = [] \<or> ?cl \<noteq> [] \<or> ls = []" using wne by auto
    from Cons.IH[OF wsfree bl Cons.prems(3,4) 5 6 7] True show ?thesis by simp
  next
    case False
    let ?ls = "if cl = [] \<and> ls = [] then [] else ls @ [cl]"
    have ls': "?ls = (if cl = [] then [] else ls @ [cl])" using v by auto
    have 3: "successively ?G ?ls"
      unfolding ls' using Cons.prems(3,5) by (auto simp: successively_append_iff)
    have 4: "[] \<notin> set ?ls" unfolding ls' using Cons.prems(4) by auto
    have 5: "?ls \<noteq> [] \<and> w \<noteq> [] \<longrightarrow> ?G (last ?ls) w"
      unfolding ls' using False tw by (auto simp: would_fit_def)
    have 6: "w \<noteq> [] \<longrightarrow> tokens w \<noteq> []" using tw by simp
    have 7: "ws = [] \<or> w \<noteq> [] \<or> ?ls = []" using wne by auto
    from Cons.IH[OF wsfree bl 3 4 5 6 7] False show ?thesis by simp
  qed
qed

lemma pack_words_facts:
  fixes d :: string
  defines "R \<equiv> pack (split_re d spaceRegex) [] []"
  shows "\<forall>l\<in>set R. length l \<le> 80 \<or> l \<in> set (tokens d)"
    and "\<forall>l\<in>set R. CHR 0x0A \<notin> set l"
    and "concat (map tokens R) = tokens d"
    and "successively (\<lambda>l l'. \<not> would_fit l (hd (tokens l'))) R"
    and "[] \<notin> set R"
proof -
  let ?ws = "split_re d spaceRegex"
  have free: "\<forall>w\<in>set ?ws. \<forall>c\<in>set w. \<not> is_space c"
    using split_re_space_free by blast
  have "\<forall>l\<in>set R. length l \<le> 80 \<or> l \<in> set ?ws"
    unfolding R_def by (rule pack_bound) simp_all
  then show "\<forall>l\<in>set R. length l \<le> 80 \<or> l \<in> set (tokens d)"
    by (auto simp: tokens_def)
  have nl: "is_space (CHR 0x0A)" by (simp add: is_space_def)
  show "\<forall>l\<in>set R. CHR 0x0A \<notin> set l"
    unfolding R_def using free nl by (intro pack_no_newline) auto
  have e: "tokens [] = []" by (simp add: tokens_word)
  show "concat (map tokens R) = tokens d"
    unfolding R_def using pack_tokens[OF free, of "[]" "[]"] e by (simp add: tokens_def)
  obtain ws where ws: "pack ?ws [] [] = pack ws [] []"
    "\<forall>w\<in>set (butlast ws). w \<noteq> []" "\<forall>w\<in>set ws. \<forall>c\<in>set w. \<not> is_space c"
    using words_shape by blast
  have "successively (\<lambda>l l'. \<not> would_fit l (hd (tokens l'))) (pack ws [] []) \<and>
        [] \<notin> set (pack ws [] [])"
    using ws(2,3) by (intro pack_greedy) simp_all
  then show "successively (\<lambda>l l'. \<not> would_fit l (hd (tokens l'))) R" and "[] \<notin> set R"
    unfolding R_def ws(1) by simp_all
qed

lemma split_re_from_space_length:
  "\<forall>w\<in>set (split_re_from spaceRegex acc s). length w \<le> length acc + length s"
proof (induction "length s" arbitrary: s acc rule: less_induct)
  case less
  show ?case
  proof (cases s)
    case Nil
    then show ?thesis by simp
  next
    case (Cons x xs)
    show ?thesis
    proof (cases "is_space x")
      case True
      have l: "length (dropWhile is_space xs) < length s"
        using Cons by (simp add: le_imp_less_Suc length_dropWhile_le)
      have "\<forall>w\<in>set (split_re_from spaceRegex [] (dropWhile is_space xs)).
              length w \<le> length acc + length s"
      proof
        fix w assume "w \<in> set (split_re_from spaceRegex [] (dropWhile is_space xs))"
        with less.hyps[OF l, of "[]"] have "length w \<le> length (dropWhile is_space xs)" by simp
        with l show "length w \<le> length acc + length s" by simp
      qed
      with True Cons show ?thesis
        by (simp add: split_re_from_space del: split_re_from.simps)
    next
      case False
      have "length xs < length s" using Cons by simp
      from less.hyps[OF this, of "acc @ [x]"] False Cons show ?thesis
        by (simp add: split_re_from_space del: split_re_from.simps)
    qed
  qed
qed

lemma tokens_length: "t \<in> set (tokens l) \<Longrightarrow> length t \<le> length l"
  using split_re_from_space_length[of "[]" l] by (auto simp: tokens_alt)

lemma long_token_line:
  fixes d :: string
  defines "R \<equiv> pack (split_re d spaceRegex) [] []"
  shows "\<forall>t\<in>set (tokens d). 80 < length t \<longrightarrow> t \<in> set R"
proof (intro ballI impI)
  fix t assume t: "t \<in> set (tokens d)" and long: "80 < length t"
  from pack_words_facts(3)[of d] t have "t \<in> set (concat (map tokens R))"
    unfolding R_def by simp
  then obtain l where l: "l \<in> set R" and tl: "t \<in> set (tokens l)" by auto
  from pack_words_facts(1)[of d] l have "length l \<le> 80 \<or> l \<in> set (tokens d)"
    unfolding R_def by blast
  then show "t \<in> set R"
  proof
    assume "length l \<le> 80"
    with tokens_length[OF tl] long show ?thesis by simp
  next
    assume "l \<in> set (tokens d)"
    then have "l \<in> set (split_re d spaceRegex)" and ne: "l \<noteq> []" by (auto simp: tokens_def)
    then have "\<forall>c\<in>set l. \<not> is_space c" using split_re_space_free by blast
    with ne have "tokens l = [l]" by (simp add: tokens_word)
    with tl l show ?thesis by simp
  qed
qed

text \<open>
  C2: every line of the output of \<^verbatim>\<open>formatDescription\<close> has at most 80 characters or is
  one token of the input, alone and unchanged, and every token of more than 80
  characters is such a line; the tokens of the output are the tokens of the input in
  the same order; a line ends only where the first token of the next line would not
  have fitted; a non-empty output has no empty line; the empty input gives the empty
  output.
\<close>

theorem formatDescription_lines:
  "(\<forall>l\<in>set (lines_of (formatDescription d)). length l \<le> 80 \<or> l \<in> set (tokens d)) \<and>
   (\<forall>t\<in>set (tokens d). 80 < length t \<longrightarrow> t \<in> set (lines_of (formatDescription d))) \<and>
   tokens (formatDescription d) = tokens d \<and>
   successively (\<lambda>l l'. \<not> would_fit l (hd (tokens l'))) (lines_of (formatDescription d)) \<and>
   (formatDescription d \<noteq> [] \<longrightarrow> [] \<notin> set (lines_of (formatDescription d))) \<and>
   formatDescription [] = []"
proof -
  let ?R = "pack (split_re d spaceRegex) [] []"
  note f = pack_words_facts[of d]
  have out: "formatDescription d = join ?R [CHR 0x0A]" by (rule formatDescription_pack)
  have tk: "tokens (formatDescription d) = tokens d"
    unfolding out tokens_join by (rule f(3))
  have emp: "formatDescription [] = []"
    by (simp add: formatDescription_pack split_re_def bt_spaceRegex_Nil)
  show ?thesis
  proof (cases "?R = []")
    case True
    then have "lines_of (formatDescription d) = [[]]"
      by (simp add: out lines_of_def split_def)
    moreover from True f(3) have "tokens d = []" by simp
    ultimately show ?thesis using True tk emp by (simp add: out)
  next
    case False
    then have "lines_of (formatDescription d) = ?R"
      unfolding out using f(2) by (intro lines_of_join)
    with f tk emp long_token_line[of d] show ?thesis by simp
  qed
qed

theorem formatDescription_lines_witness:
  "lines_of (formatDescription sample_text) =
     [replicate 81 (CHR ''x''), ''ab cd'', replicate 75 (CHR ''y'') @ '' ef '']
   \<and> replicate 81 (CHR ''x'') \<in> set (tokens sample_text)
   \<and> tokens (formatDescription sample_text) = tokens sample_text"
proof -
  have e: "lines_of (formatDescription sample_text) =
     [replicate 81 (CHR ''x''), ''ab cd'', replicate 75 (CHR ''y'') @ '' ef '']"
    by code_simp
  from formatDescription_lines[of sample_text] show ?thesis
    unfolding e by simp
qed

section \<open>Evaluations of the pipeline\<close>

lemma Inl_from_projection: "map_sum id (\<lambda>x. ()) r = Inl e \<Longrightarrow> r = Inl e"
  by (cases r) auto

text \<open>
  C1: the fragment parsers never raise. The code does raise: on a fragment with a
  level-3 header and fewer than four segments \<^verbatim>\<open>paragraphs[3]\<close> is \<^verbatim>\<open>undefined\<close>, its
  \<^verbatim>\<open>trim\<close> is a TypeError, and the error leaves the loop of \<^verbatim>\<open>scrapeAPI\<close>.
\<close>

theorem parseFunction_raises:
  "parseFunction bare_function = Inl TypeError_paragraph \<and>
   scrapeAPI bare_function_page = Inl TypeError_paragraph"
proof
  have "map_sum id (\<lambda>x. ()) (parseFunction bare_function) = Inl TypeError_paragraph"
    by code_simp
  then show "parseFunction bare_function = Inl TypeError_paragraph"
    by (rule Inl_from_projection)
  have "map_sum id (\<lambda>x. ()) (scrapeAPI bare_function_page) = Inl TypeError_paragraph"
    by code_simp
  then show "scrapeAPI bare_function_page = Inl TypeError_paragraph"
    by (rule Inl_from_projection)
qed

section \<open>Tables\<close>

lemma table_name_Inr: "table \<noteq> [] \<Longrightarrow> \<exists>name. table_name table = Inr name"
  by (auto simp: table_name_def split: list.splits)

lemma extractTables_loop_total:
  "\<forall>m\<in>set ms. table_rows m \<noteq> [] \<Longrightarrow>
   \<exists>r. extractTables_loop textInput ms pos textResult tablesPart = Inr r"
proof (induction ms arbitrary: pos textResult tablesPart)
  case Nil
  show ?case by simp
next
  case (Cons m ms)
  then obtain name where "table_name (table_rows m) = Inr name"
    using table_name_Inr[of "table_rows m"] by auto
  with Cons show ?case by (simp add: Let_def)
qed

lemma extractTables_loop_raises:
  "\<exists>m\<in>set ms. table_rows m = [] \<Longrightarrow>
   extractTables_loop textInput ms pos textResult tablesPart = Inl TypeError_table"
proof (induction ms arbitrary: pos textResult tablesPart)
  case Nil
  then show ?case by simp
next
  case (Cons m ms)
  show ?case
  proof (cases "table_rows m = []")
    case True
    then show ?thesis by (simp add: Let_def table_name_def)
  next
    case False
    then obtain name where n: "table_name (table_rows m) = Inr name"
      using table_name_Inr by blast
    from False Cons.prems have "\<exists>m\<in>set ms. table_rows m = []" by auto
    from Cons.IH[OF this] n show ?thesis by (simp add: Let_def)
  qed
qed

lemma extractTables_error: "extractTables x = Inl e \<Longrightarrow> e = TypeError_table"
proof (cases "\<forall>m\<in>set (matchAll x tableRegex). table_rows m \<noteq> []")
  case True
  assume "extractTables x = Inl e"
  with extractTables_loop_total[OF True, of x 0 "[]" Map.empty] show ?thesis
    by (auto simp: extractTables_def)
next
  case False
  assume a: "extractTables x = Inl e"
  from False have "\<exists>m\<in>set (matchAll x tableRegex). table_rows m = []" by simp
  from extractTables_loop_raises[OF this, of x 0 "[]" Map.empty] a show ?thesis
    by (simp add: extractTables_def)
qed

text \<open>
  C10: \<^verbatim>\<open>extractTables\<close> returns exactly when every matched table block has a row; on
  \<^verbatim>\<open><table></table>\<close>, whose only match has no row, \<^verbatim>\<open>table[0][0]\<close> raises.
\<close>

theorem extractTables_total:
  "((\<exists>r. extractTables textInput = Inr r) \<longleftrightarrow>
      (\<forall>m\<in>set (matchAll textInput tableRegex). table_rows m \<noteq> [])) \<and>
   matchAll empty_table tableRegex = [\<lparr>index = 0, whole = empty_table, groups = [[]]\<rparr>] \<and>
   extractTables empty_table = Inl TypeError_table"
proof (intro conjI)
  show "(\<exists>r. extractTables textInput = Inr r) \<longleftrightarrow>
      (\<forall>m\<in>set (matchAll textInput tableRegex). table_rows m \<noteq> [])"
  proof (cases "\<forall>m\<in>set (matchAll textInput tableRegex). table_rows m \<noteq> []")
    case True
    from extractTables_loop_total[OF this, of textInput 0 "[]" Map.empty] True
    show ?thesis by (auto simp: extractTables_def)
  next
    case False
    then have "\<exists>m\<in>set (matchAll textInput tableRegex). table_rows m = []" by simp
    from extractTables_loop_raises[OF this, of textInput 0 "[]" Map.empty] False
    show ?thesis by (simp add: extractTables_def)
  qed
  show "matchAll empty_table tableRegex = [\<lparr>index = 0, whole = empty_table, groups = [[]]\<rparr>]"
    by code_simp
  have "map_sum id (\<lambda>x. ()) (extractTables empty_table) = Inl TypeError_table"
    by code_simp
  then show "extractTables empty_table = Inl TypeError_table"
    by (rule Inl_from_projection)
qed

theorem extractTables_total_witness:
  "map table_rows (matchAll colors_table tableRegex) = [[[''Colors''], [''Red'', ''255,0,0'']]] \<and>
   (\<exists>r. extractTables colors_table = Inr r)"
proof -
  have e: "map table_rows (matchAll colors_table tableRegex) = [[[''Colors''], [''Red'', ''255,0,0'']]]"
    by code_simp
  have "\<forall>t\<in>set (map table_rows (matchAll colors_table tableRegex)). t \<noteq> []"
    unfolding e by simp
  then have "\<forall>m\<in>set (matchAll colors_table tableRegex). table_rows m \<noteq> []" by simp
  with extractTables_total[of colors_table] e show ?thesis by blast
qed

section \<open>The splitter\<close>

text \<open>
  The order of \<^verbatim>\<open>entries.sort()\<close>: the strings are compared code unit by code unit, and a
  proper prefix comes first.
\<close>

lemma entries_order_code_units:
  fixes x y :: char and xs ys :: string
  shows "[] \<le> ys" and "\<not> x # xs \<le> []"
    and "x # xs \<le> y # ys \<longleftrightarrow> (of_char x :: nat) < of_char y \<or> x = y \<and> xs \<le> ys"
  by (simp_all add: less_char_def)

lemma scrapeAPI_loop_categories:
  "scrapeAPI_loop parts categories funs = Inr (cs, fs) \<Longrightarrow> c \<in> set cs \<Longrightarrow>
   c \<in> set categories \<or>
   (\<exists>part\<in>set parts. \<exists>c0. parseCategory part = Inr (Some c0) \<and>
       c = c0\<lparr>cat_entries := sort (cat_entries c0)\<rparr>)"
proof (induction parts arbitrary: categories funs)
  case Nil
  then show ?case by simp
next
  case (Cons part parts)
  show ?case
  proof (cases "parseCategory part")
    case (Inl e)
    with Cons.prems show ?thesis by simp
  next
    case (Inr r)
    show ?thesis
    proof (cases r)
      case (Some c0)
      with Inr Cons.prems have
        "scrapeAPI_loop parts (categories @ [c0\<lparr>cat_entries := sort (cat_entries c0)\<rparr>]) funs
           = Inr (cs, fs)" by simp
      from Cons.IH[OF this Cons.prems(2)] Inr Some show ?thesis by auto
    next
      case None
      show ?thesis
      proof (cases "parseFunction part")
        case (Inl e)
        with None Inr Cons.prems show ?thesis by simp
      next
        case f: (Inr rf)
        show ?thesis
        proof (cases rf)
          case None': None
          with f None Inr Cons.prems have "scrapeAPI_loop parts categories funs = Inr (cs, fs)"
            by simp
          from Cons.IH[OF this Cons.prems(2)] show ?thesis by auto
        next
          case (Some func)
          with f None Inr Cons.prems have
            "scrapeAPI_loop parts categories (funs @ [func]) = Inr (cs, fs)" by simp
          from Cons.IH[OF this Cons.prems(2)] show ?thesis by auto
        qed
      qed
    qed
  qed
qed

text \<open>
  C8: every category of the document is a result of \<^verbatim>\<open>parseCategory\<close> on a fragment with
  its entries sorted, so its entries ascend in the lexicographic order of the code
  units; \<^verbatim>\<open>parseCategory\<close> itself returns the entries as found, here \<open>b\<close> before \<open>a\<close>.
\<close>

theorem scrapeAPI_entries_sorted:
  "(scrapeAPI data = Inr doc \<longrightarrow>
      (\<forall>c\<in>set (doc_categories doc).
          sorted (cat_entries c) \<and>
          (\<exists>part\<in>set (split data ''<hr/>''). \<exists>c0. parseCategory part = Inr (Some c0) \<and>
              c = c0\<lparr>cat_entries := sort (cat_entries c0)\<rparr>))) \<and>
   map_sum id (map_option cat_entries) (parseCategory unsorted_category) = Inr (Some [''b'', ''a''])"
proof (intro conjI impI ballI)
  fix c assume d: "scrapeAPI data = Inr doc" and c: "c \<in> set (doc_categories doc)"
  from d obtain fs where "scrapeAPI_loop (split data ''<hr/>'') [] [] = Inr (doc_categories doc, fs)"
    by (auto simp: scrapeAPI_def Let_def split: option.splits sum.splits)
  from scrapeAPI_loop_categories[OF this c]
  show p: "\<exists>part\<in>set (split data ''<hr/>''). \<exists>c0. parseCategory part = Inr (Some c0) \<and>
              c = c0\<lparr>cat_entries := sort (cat_entries c0)\<rparr>" by simp
  then show "sorted (cat_entries c)" by auto
next
  show "map_sum id (map_option cat_entries) (parseCategory unsorted_category) = Inr (Some [''b'', ''a''])"
    by code_simp
qed

theorem scrapeAPI_entries_sorted_witness:
  "\<exists>doc. scrapeAPI sample_page = Inr doc \<and>
     map cat_entries (doc_categories doc) = [[''a'', ''b'']] \<and>
     sorted (cat_entries (hd (doc_categories doc)))"
proof -
  have e: "map_sum id (\<lambda>d. map cat_entries (doc_categories d)) (scrapeAPI sample_page)
             = Inr [[''a'', ''b'']]"
    by code_simp
  then obtain doc where d: "scrapeAPI sample_page = Inr doc"
    by (cases "scrapeAPI sample_page") auto
  with e have m: "map cat_entries (doc_categories doc) = [[''a'', ''b'']]" by simp
  then have "hd (doc_categories doc) \<in> set (doc_categories doc)" by (cases "doc_categories doc") auto
  with d scrapeAPI_entries_sorted[of sample_page doc]
  have "sorted (cat_entries (hd (doc_categories doc)))" by blast
  with d m show ?thesis by (intro exI[of _ doc]) simp
qed

section \<open>The version header\<close>

lemma lc_versionRegex:
  "lc versionRegex w caps \<longleftrightarrow>
     (\<exists>mid v. w = header_markup mid v \<and> header_parts_ok mid v \<and> caps = [v])"
proof
  assume "lc versionRegex w caps"
  then show "\<exists>mid v. w = header_markup mid v \<and> header_parts_ok mid v \<and> caps = [v]"
    unfolding versionRegex_def header_markup_def
    apply (elim lcE)
    apply hypsubst
    apply (simp only: append_Nil2)
    apply (rule exI, rule exI)
    apply (rule conjI, rule refl)
    apply (auto simp: header_parts_ok_def dot_def)
    done
next
  assume "\<exists>mid v. w = header_markup mid v \<and> header_parts_ok mid v \<and> caps = [v]"
  then obtain mid v where w: "w = header_markup mid v" and ok: "header_parts_ok mid v"
    and c: "caps = [v]" by blast
  show "lc versionRegex w caps"
    unfolding w c versionRegex_def header_markup_def
    using ok
    by (intro lc_LitI lc_RepI lc_GrpI lc_Lit_lastI)
       (auto simp: header_parts_ok_def dot_def Suc_le_eq)
qed

lemma version_None_iff:
  "search versionRegex data = None \<longleftrightarrow>
   \<not> (\<exists>p mid v q. data = p @ header_markup mid v @ q \<and> header_parts_ok mid v)"
proof -
  have "(\<exists>p w q. data = p @ w @ q \<and> lang versionRegex w) \<longleftrightarrow>
        (\<exists>p mid v q. data = p @ header_markup mid v @ q \<and> header_parts_ok mid v)"
    unfolding lang_def lc_versionRegex by blast
  then show ?thesis unfolding search_None_iff by blast
qed

lemma version_Some:
  assumes m: "search versionRegex data = Some m"
  shows "\<exists>p mid v q. data = p @ header_markup mid v @ q \<and> header_parts_ok mid v \<and>
           groups m = [v] \<and>
           (\<forall>p' mid' v' q'. data = p' @ header_markup mid' v' @ q' \<and> header_parts_ok mid' v' \<longrightarrow>
              length p \<le> length p' \<and> (length p' = length p \<longrightarrow> length mid \<le> length mid'))"
proof -
  note w = search_whole[OF m]
  from w(2) obtain mid v where wm: "whole m = header_markup mid v"
    and ok: "header_parts_ok mid v" and g: "groups m = [v]" unfolding lc_versionRegex by blast
  define p where "p = take (index m) data"
  define q where "q = drop (index m + length (whole m)) data"
  have lp: "length p = index m" unfolding p_def using w(3) by simp
  have "data = p @ whole m @ q" unfolding p_def q_def by (rule w(1))
  then have data: "data = p @ header_markup mid v @ q" unfolding wm .
  from search_SomeD[OF m] obtain rest where
    b: "bt versionRegex (drop (index m) data) = Some (groups m, rest)"
    and dr: "drop (index m) data = whole m @ rest" by blast
  let ?tail = "[Lit ''('', Grp Greedy 1 digit_or_dot, Lit '')</h1>'']"
  have min: "\<forall>p' mid' v' q'. data = p' @ header_markup mid' v' @ q' \<and> header_parts_ok mid' v' \<longrightarrow>
              length p \<le> length p' \<and> (length p' = length p \<longrightarrow> length mid \<le> length mid')"
  proof (intro allI impI conjI)
    fix p' mid' v' q'
    assume a: "data = p' @ header_markup mid' v' @ q' \<and> header_parts_ok mid' v'"
    then have d: "data = p' @ header_markup mid' v' @ q'" and ok': "header_parts_ok mid' v'"
      by simp_all
    have "lang versionRegex (header_markup mid' v')"
      unfolding lang_def lc_versionRegex using ok' by blast
    from w(4)[OF d this] show "length p \<le> length p'" unfolding lp .
    assume "length p' = length p"
    then have "length p' = index m" unfolding lp .
    with d have "drop (index m) data = header_markup mid' v' @ q'" by simp
    then have dr': "drop (index m) data = ''<h1>'' @ (mid' @ (''('' @ v' @ '')</h1>'') @ q')"
      unfolding header_markup_def by simp
    have 1: "bt (Rep Lazy 0 dot # ?tail) (mid' @ (''('' @ v' @ '')</h1>'') @ q') = Some (groups m, rest)"
      using b unfolding dr' versionRegex_def by (simp only: bt_Lit)
    have "lc ?tail (''('' @ v' @ '')</h1>'') [v']"
      using ok' by (intro lc_LitI lc_GrpI lc_Lit_lastI) (auto simp: header_parts_ok_def Suc_le_eq)
    from bt_complete[OF this, of q'] have 2: "bt ?tail ((''('' @ v' @ '')</h1>'') @ q') \<noteq> None" .
    from bt_Rep_lazy_min[OF 1 refl _ 2] obtain u' v'' where
      s: "mid' @ (''('' @ v' @ '')</h1>'') @ q' = u' @ v''" and le: "length u' \<le> length mid'"
      and t: "bt ?tail v'' = Some (groups m, rest)" by auto
    from bt_sound[OF t] obtain w'' where v'': "v'' = w'' @ rest" and "lc ?tail w'' (groups m)" by blast
    then have "w'' = ''('' @ v @ '')</h1>''"
      unfolding g by (elim lcE) simp
    with v'' s dr' have "drop (index m) data = (''<h1>'' @ u' @ ''('' @ v @ '')</h1>'') @ rest"
      by simp
    with dr have "whole m = ''<h1>'' @ u' @ ''('' @ v @ '')</h1>''" by simp
    then have "mid = u'" unfolding wm header_markup_def by simp
    with le show "length mid \<le> length mid'" by simp
  qed
  from data ok g min show ?thesis by blast
qed

lemma extractTables_no_version_error: "extractTables x \<noteq> Inl TypeError_version"
  using extractTables_error[of x TypeError_version] by auto

lemma scrapeAPI_version_error_iff:
  "scrapeAPI data = Inl TypeError_version \<longleftrightarrow> search versionRegex data = None"
proof (cases "search versionRegex data")
  case None
  then show ?thesis by (simp add: scrapeAPI_def)
next
  case (Some m)
  have loop: "scrapeAPI_loop parts cs fs \<noteq> Inl TypeError_version" for parts cs fs
  proof (induction parts arbitrary: cs fs)
    case Nil
    show ?case by simp
  next
    case (Cons part parts)
    have c: "parseCategory part \<noteq> Inl TypeError_version"
    proof -
      note t = extractTables_no_version_error
      have l: "parseCategory_loop ps tb ds es \<noteq> Inl TypeError_version" for ps tb ds es
      proof (induction ps arbitrary: tb ds es)
        case Nil
        show ?case by simp
      next
        case (Cons a ps)
        then show ?case using t[of a] by (auto split: option.splits sum.splits)
      qed
      show ?thesis using l by (auto simp: parseCategory_def split: option.splits sum.splits)
    qed
    have f: "parseFunction part \<noteq> Inl TypeError_version"
    proof -
      note t = extractTables_no_version_error
      show ?thesis
        unfolding parseFunction_def Let_def using t
        by (auto split: option.splits sum.splits)
    qed
    from c f Cons.IH show ?case by (auto split: sum.splits option.splits)
  qed
  from Some loop[of "split data ''<hr/>''" "[]" "[]"] show ?thesis
    by (auto simp: scrapeAPI_def Let_def split: sum.splits)
qed

lemma scrapeAPI_version:
  "scrapeAPI data = Inr doc \<Longrightarrow> \<exists>m. search versionRegex data = Some m \<and> doc_version doc = groups m ! 0"
  by (auto simp: scrapeAPI_def Let_def split: option.splits sum.splits)

text \<open>
  The extraction of the version alone: the pipeline raises there exactly when the text
  holds no header with a parenthesized version of digits and dots; when it returns a
  document, the version is the one of the header that starts first, read with the
  shortest text before the parenthesis.
\<close>

lemma scrapeAPI_version_header:
  "(scrapeAPI data = Inl TypeError_version \<longleftrightarrow>
      \<not> (\<exists>p mid v q. data = p @ header_markup mid v @ q \<and> header_parts_ok mid v)) \<and>
   (scrapeAPI data = Inr doc \<longrightarrow>
      (\<exists>p mid q. data = p @ header_markup mid (doc_version doc) @ q \<and>
         header_parts_ok mid (doc_version doc) \<and>
         (\<forall>p' mid' v' q'. data = p' @ header_markup mid' v' @ q' \<and> header_parts_ok mid' v' \<longrightarrow>
            length p \<le> length p' \<and> (length p' = length p \<longrightarrow> length mid \<le> length mid'))))"
proof (intro conjI impI)
  show "scrapeAPI data = Inl TypeError_version \<longleftrightarrow>
      \<not> (\<exists>p mid v q. data = p @ header_markup mid v @ q \<and> header_parts_ok mid v)"
    unfolding scrapeAPI_version_error_iff by (rule version_None_iff)
next
  assume "scrapeAPI data = Inr doc"
  from scrapeAPI_version[OF this] obtain m where m: "search versionRegex data = Some m"
    and v: "doc_version doc = groups m ! 0" by blast
  from version_Some[OF m] obtain p mid v0 q where
    "data = p @ header_markup mid v0 @ q" "header_parts_ok mid v0" "groups m = [v0]"
    "\<forall>p' mid' v' q'. data = p' @ header_markup mid' v' @ q' \<and> header_parts_ok mid' v' \<longrightarrow>
        length p \<le> length p' \<and> (length p' = length p \<longrightarrow> length mid \<le> length mid')"
    by blast
  moreover from this v have "doc_version doc = v0" by simp
  ultimately show "\<exists>p mid q. data = p @ header_markup mid (doc_version doc) @ q \<and>
         header_parts_ok mid (doc_version doc) \<and>
         (\<forall>p' mid' v' q'. data = p' @ header_markup mid' v' @ q' \<and> header_parts_ok mid' v' \<longrightarrow>
            length p \<le> length p' \<and> (length p' = length p \<longrightarrow> length mid \<le> length mid'))"
    by blast
qed

text \<open>
  A page without the version in its header raises at the version; the sample page has
  the header and gives the version 1.2.3.
\<close>

lemma scrapeAPI_version_header_samples:
  "scrapeAPI no_version_page = Inl TypeError_version \<and>
   \<not> (\<exists>p mid v q. no_version_page = p @ header_markup mid v @ q \<and> header_parts_ok mid v) \<and>
   (\<exists>doc. scrapeAPI sample_page = Inr doc \<and> doc_version doc = ''1.2.3'' \<and>
      (\<exists>p mid q. sample_page = p @ header_markup mid ''1.2.3'' @ q \<and> header_parts_ok mid ''1.2.3''))"
proof -
  have "map_sum id (\<lambda>x. ()) (scrapeAPI no_version_page) = Inl TypeError_version"
    by code_simp
  then have 1: "scrapeAPI no_version_page = Inl TypeError_version"
    by (rule Inl_from_projection)
  with scrapeAPI_version_header[of no_version_page] have
    2: "\<not> (\<exists>p mid v q. no_version_page = p @ header_markup mid v @ q \<and> header_parts_ok mid v)"
    by blast
  have e: "map_sum id doc_version (scrapeAPI sample_page) = Inr ''1.2.3''"
    by code_simp
  then obtain doc where d: "scrapeAPI sample_page = Inr doc"
    by (cases "scrapeAPI sample_page") auto
  with e have v: "doc_version doc = ''1.2.3''" by simp
  from scrapeAPI_version_header[of sample_page doc] d
  have "\<exists>p mid q. sample_page = p @ header_markup mid (doc_version doc) @ q \<and>
      header_parts_ok mid (doc_version doc)" by blast
  with d v have "\<exists>doc. scrapeAPI sample_page = Inr doc \<and> doc_version doc = ''1.2.3'' \<and>
      (\<exists>p mid q. sample_page = p @ header_markup mid ''1.2.3'' @ q \<and> header_parts_ok mid ''1.2.3'')"
    by auto
  with 1 2 show ?thesis by blast
qed

text \<open>
  C4: the pipeline raises exactly when the text holds no header with a parenthesized
  version, and with the header the document carries the captured version. The code
  raises with the header in place as well: the page that holds the header of version
  1.0 and the fragment \<^verbatim>\<open><h3>a</h3>\<close> matches the version pattern with the capture \<open>1.0\<close>,
  and the run ends in the TypeError of \<^verbatim>\<open>paragraphs[3].trim()\<close>, with no document.
\<close>

theorem scrapeAPI_raises_with_header:
  "bare_function_page = header_markup ''T '' ''1.0'' @ ''<hr/><h3>a</h3>'' \<and>
   map_option groups (search versionRegex bare_function_page) = Some [''1.0''] \<and>
   scrapeAPI bare_function_page = Inl TypeError_paragraph"
proof (intro conjI)
  show "bare_function_page = header_markup ''T '' ''1.0'' @ ''<hr/><h3>a</h3>''"
    by (simp add: bare_function_page_def header_markup_def)
  show "map_option groups (search versionRegex bare_function_page) = Some [''1.0'']"
    by code_simp
  have "map_sum id (\<lambda>x. ()) (scrapeAPI bare_function_page) = Inl TypeError_paragraph"
    by code_simp
  then show "scrapeAPI bare_function_page = Inl TypeError_paragraph"
    by (rule Inl_from_projection)
qed
section \<open>Headers and the choice of the parser\<close>

lemma lc_tagRegex:
  "lc (tagRegex tag) w caps \<longleftrightarrow>
     (\<exists>attrs body. w = ''<'' @ tag @ attrs @ ''>'' @ body @ ''</'' @ tag @ ''>'' \<and>
        CHR ''>'' \<notin> set attrs \<and> (\<forall>c\<in>set body. \<not> is_line_terminator c) \<and>
        caps = [attrs, body])"
proof
  assume "lc (tagRegex tag) w caps"
  then obtain v1 where v1: "w = (''<'' @ tag) @ v1"
    and 1: "lc [Grp Greedy 0 (not_char CHR ''>''), Lit ''>'', Grp Lazy 0 dot, Lit (''</'' @ tag @ ''>'')] v1 caps"
    unfolding tagRegex_def lc.simps(2) by blast
  from 1 obtain attrs v2 cs where a: "v1 = attrs @ v2" "\<forall>c\<in>set attrs. not_char CHR ''>'' c"
    "caps = attrs # cs" and 2: "lc [Lit ''>'', Grp Lazy 0 dot, Lit (''</'' @ tag @ ''>'')] v2 cs"
    unfolding lc.simps(5) by blast
  from 2 obtain v3 where v3: "v2 = ''>'' @ v3"
    and 3: "lc [Grp Lazy 0 dot, Lit (''</'' @ tag @ ''>'')] v3 cs"
    unfolding lc.simps(2) by blast
  from 3 obtain body v4 cs' where b: "v3 = body @ v4" "\<forall>c\<in>set body. dot c" "cs = body # cs'"
    and 4: "lc [Lit (''</'' @ tag @ ''>'')] v4 cs'"
    unfolding lc.simps(5) by blast
  from 4 have e: "v4 = ''</'' @ tag @ ''>''" "cs' = []"
    unfolding lc.simps(2) lc.simps(1) by auto
  have "w = ''<'' @ tag @ attrs @ ''>'' @ body @ ''</'' @ tag @ ''>''"
    unfolding v1 a(1) v3 b(1) e(1) by simp
  moreover have "CHR ''>'' \<notin> set attrs" using a(2) by (auto simp: not_char_def)
  moreover have "\<forall>c\<in>set body. \<not> is_line_terminator c" using b(2) by (simp add: dot_def)
  moreover have "caps = [attrs, body]" unfolding a(3) b(3) e(2) ..
  ultimately show "\<exists>attrs body. w = ''<'' @ tag @ attrs @ ''>'' @ body @ ''</'' @ tag @ ''>'' \<and>
        CHR ''>'' \<notin> set attrs \<and> (\<forall>c\<in>set body. \<not> is_line_terminator c) \<and>
        caps = [attrs, body]" by blast
next
  assume "\<exists>attrs body. w = ''<'' @ tag @ attrs @ ''>'' @ body @ ''</'' @ tag @ ''>'' \<and>
        CHR ''>'' \<notin> set attrs \<and> (\<forall>c\<in>set body. \<not> is_line_terminator c) \<and>
        caps = [attrs, body]"
  then obtain attrs body where w: "w = ''<'' @ tag @ attrs @ ''>'' @ body @ ''</'' @ tag @ ''>''"
    and a: "CHR ''>'' \<notin> set attrs" and b: "\<forall>c\<in>set body. \<not> is_line_terminator c"
    and c: "caps = [attrs, body]" by blast
  have 4: "lc [Lit (''</'' @ tag @ ''>'')] (''</'' @ tag @ ''>'') []"
    unfolding lc.simps(2) lc.simps(1) by simp
  have 3: "lc [Grp Lazy 0 dot, Lit (''</'' @ tag @ ''>'')] (body @ ''</'' @ tag @ ''>'') [body]"
    unfolding lc.simps(5) using 4 b by (intro exI[of _ body] exI[of _ "''</'' @ tag @ ''>''"] exI[of _ "[]"]) (simp add: dot_def)
  have 2: "lc [Lit ''>'', Grp Lazy 0 dot, Lit (''</'' @ tag @ ''>'')] (''>'' @ body @ ''</'' @ tag @ ''>'') [body]"
    unfolding lc.simps(2) using 3 by blast
  have 1: "lc [Grp Greedy 0 (not_char CHR ''>''), Lit ''>'', Grp Lazy 0 dot, Lit (''</'' @ tag @ ''>'')]
             (attrs @ ''>'' @ body @ ''</'' @ tag @ ''>'') [attrs, body]"
    unfolding lc.simps(5) using 2 a
    by (intro exI[of _ attrs] exI[of _ "''>'' @ body @ ''</'' @ tag @ ''>''"] exI[of _ "[body]"])
       (auto simp: not_char_def)
  have "lc (tagRegex tag) ((''<'' @ tag) @ attrs @ ''>'' @ body @ ''</'' @ tag @ ''>'') [attrs, body]"
    unfolding tagRegex_def lc.simps(2) using 1 by blast
  then show "lc (tagRegex tag) w caps" unfolding w c by simp
qed

lemma matchTag_None_iff: "matchTag text tag = None \<longleftrightarrow> \<not> has_header tag text"
proof -
  have "(\<exists>p w q. text = p @ w @ q \<and> lang (tagRegex tag) w) \<longleftrightarrow> has_header tag text"
  proof
    assume "\<exists>p w q. text = p @ w @ q \<and> lang (tagRegex tag) w"
    then obtain p w q caps where t: "text = p @ w @ q" and "lc (tagRegex tag) w caps"
      unfolding lang_def by blast
    then obtain attrs body where w: "w = ''<'' @ tag @ attrs @ ''>'' @ body @ ''</'' @ tag @ ''>''"
      and ab: "CHR ''>'' \<notin> set attrs" "\<forall>c\<in>set body. \<not> is_line_terminator c"
      unfolding lc_tagRegex by blast
    have "text = p @ ''<'' @ tag @ attrs @ ''>'' @ body @ ''</'' @ tag @ ''>'' @ q"
      unfolding t w by simp
    with ab show "has_header tag text" unfolding has_header_def by blast
  next
    assume "has_header tag text"
    then obtain pre attrs body post where
      t: "text = pre @ ''<'' @ tag @ attrs @ ''>'' @ body @ ''</'' @ tag @ ''>'' @ post"
      and ab: "CHR ''>'' \<notin> set attrs" "\<forall>c\<in>set body. \<not> is_line_terminator c"
      unfolding has_header_def by blast
    let ?w = "''<'' @ tag @ attrs @ ''>'' @ body @ ''</'' @ tag @ ''>''"
    have "lc (tagRegex tag) ?w [attrs, body]" unfolding lc_tagRegex using ab by blast
    then have "lang (tagRegex tag) ?w" unfolding lang_def by blast
    moreover have "text = pre @ ?w @ post" unfolding t by simp
    ultimately show "\<exists>p w q. text = p @ w @ q \<and> lang (tagRegex tag) w" by blast
  qed
  then show ?thesis unfolding matchTag_def search_None_iff by blast
qed


text \<open>
  Where \<^verbatim>\<open>parseFunction\<close> raises on the segments: the header is there and the fragment has
  fewer than four segments.
\<close>

lemma parseFunction_paragraph_error_iff:
  "parseFunction text = Inl TypeError_paragraph \<longleftrightarrow>
   has_header ''h3'' text \<and> length (split text ''<p>'') \<le> 3"
proof (cases "matchTag text ''h3''")
  case None
  then show ?thesis using matchTag_None_iff[of "text" "''h3''"] by (simp add: parseFunction_def)
next
  case (Some m)
  then have h: "has_header ''h3'' text" using matchTag_None_iff[of "text" "''h3''"] by auto
  show ?thesis
  proof (cases "length (split text ''<p>'') \<le> 3")
    case True
    with Some h show ?thesis by (simp add: parseFunction_def Let_def)
  next
    case False
    have "parseFunction text \<noteq> Inl TypeError_paragraph"
    proof
      assume a: "parseFunction text = Inl TypeError_paragraph"
      with Some False obtain raw where "extractTables raw = Inl TypeError_paragraph"
        by (auto simp: parseFunction_def Let_def split: sum.splits if_splits)
      from extractTables_error[OF this] show False by simp
    qed
    with False show ?thesis by simp
  qed
qed





section \<open>Tables, placeholders and cells\<close>

lemma weave_whole:
  "sorted_wrt (\<lambda>m m'. index m + length (whole m) \<le> index m') ms \<Longrightarrow>
   \<forall>m\<in>set ms. pos \<le> index m \<and> take (length (whole m)) (drop (index m) s) = whole m \<Longrightarrow>
   weave whole s pos ms = drop pos s"
proof (induction ms arbitrary: pos)
  case Nil
  show ?case by simp
next
  case (Cons m ms)
  from Cons.prems have 1: "sorted_wrt (\<lambda>m m'. index m + length (whole m) \<le> index m') ms"
    and 2: "\<forall>m'\<in>set ms. index m + length (whole m) \<le> index m' \<and>
               take (length (whole m')) (drop (index m') s) = whole m'"
    and 3: "pos \<le> index m" and 4: "take (length (whole m)) (drop (index m) s) = whole m"
    by auto
  have a: "substring s pos (index m) = take (index m - pos) (drop pos s)"
    using 3 by (simp add: substring_def max_def min_def)
  have b: "drop (index m) s = drop (index m - pos) (drop pos s)" using 3 by simp
  have "weave whole s pos (m # ms) =
        take (index m - pos) (drop pos s) @ take (length (whole m)) (drop (index m) s) @
        drop (index m + length (whole m)) s"
    using Cons.IH[OF 1 2] a 4 by simp
  also have "\<dots> = take (index m - pos) (drop pos s) @ drop (index m) s"
    by (metis add.commute append_take_drop_id drop_drop)
  also have "\<dots> = drop pos s" by (simp only: b append_take_drop_id)
  finally show ?case .
qed

lemma matchAll_tiles: "weave whole s 0 (matchAll s ns) = s"
proof -
  have "weave whole s 0 (matchAll s ns) = drop 0 s"
    using matchAll_props(2)[of _ s ns] by (intro weave_whole matchAll_sorted) simp
  then show ?thesis by simp
qed

lemma table_name_first_cell: "t \<noteq> [] \<Longrightarrow> table_name t = Inr (first_cell t)"
  by (auto simp: table_name_def first_cell_def split: list.splits)

lemma concat_join: "join xs [] = concat xs"
  by (induction xs "[] :: string" rule: join.induct) auto

lemma extractTables_loop_weave:
  "extractTables_loop textInput ms pos textResult tablesPart = Inr (pos', textResult', tablesPart') \<Longrightarrow>
   concat (textResult' @ [drop pos' textInput]) =
     concat textResult @ weave placeholder textInput pos ms \<and>
   tablesPart' =
     foldl (\<lambda>t m. obj_set t (first_cell (table_rows m)) (drop 1 (table_rows m))) tablesPart ms"
proof (induction ms arbitrary: pos textResult tablesPart)
  case Nil
  then show ?case by simp
next
  case (Cons m ms)
  from Cons.prems have ne: "table_rows m \<noteq> []"
    by (auto simp: Let_def table_name_def split: list.splits)
  note n = table_name_first_cell[OF ne]
  from Cons.prems n have
    "extractTables_loop textInput ms (index m + length (whole m))
       ((textResult @ [substring textInput pos (index m)]) @
          [''${table:'' @ first_cell (table_rows m) @ ''}''])
       (obj_set tablesPart (first_cell (table_rows m)) (drop 1 (table_rows m)))
     = Inr (pos', textResult', tablesPart')"
    by (simp add: Let_def)
  from Cons.IH[OF this] show ?case by (simp add: placeholder_def)
qed

lemma foldl_obj_set_last:
  assumes "i < length ms" and "key (ms ! i) \<noteq> ''__proto__''"
    and "\<forall>j. i < j \<and> j < length ms \<longrightarrow> key (ms ! j) \<noteq> key (ms ! i)"
  shows "foldl (\<lambda>t m. obj_set t (key m) (val m)) tb ms (key (ms ! i)) = Some (val (ms ! i))"
  using assms
proof (induction ms arbitrary: i rule: rev_induct)
  case Nil
  then show ?case by simp
next
  case (snoc m ms)
  show ?case
  proof (cases "i = length ms")
    case True
    with snoc.prems(2) show ?thesis by (simp add: obj_set_def)
  next
    case False
    with snoc.prems(1) have i: "i < length ms" by simp
    have k: "key m \<noteq> key (ms ! i)"
      using snoc.prems(3)[rule_format, of "length ms"] i by (simp add: nth_append)
    have "\<forall>j. i < j \<and> j < length ms \<longrightarrow> key (ms ! j) \<noteq> key (ms ! i)"
    proof (intro allI impI)
      fix j assume j: "i < j \<and> j < length ms"
      with snoc.prems(3)[rule_format, of j] i show "key (ms ! j) \<noteq> key (ms ! i)"
        by (simp add: nth_append)
    qed
    from snoc.IH[OF i _ this] snoc.prems(2) i k show ?thesis
      by (simp add: nth_append obj_set_def)
  qed
qed

lemma foldl_obj_set_dom:
  "foldl (\<lambda>t m. obj_set t (key m) (val m)) tb ms name = Some rows \<Longrightarrow>
   tb name = Some rows \<or> (\<exists>i<length ms. name = key (ms ! i) \<and> rows = val (ms ! i))"
proof (induction ms arbitrary: rows rule: rev_induct)
  case Nil
  then show ?case by simp
next
  case (snoc m ms)
  show ?case
  proof (cases "key m = name \<and> key m \<noteq> ''__proto__''")
    case True
    with snoc.prems have "rows = val m" by (auto simp: obj_set_def)
    with True show ?thesis by (intro disjI2 exI[of _ "length ms"]) simp
  next
    case False
    with snoc.prems have "foldl (\<lambda>t m. obj_set t (key m) (val m)) tb ms name = Some rows"
      by (auto simp: obj_set_def split: if_splits)
    from snoc.IH[OF this] show ?thesis
      by (auto simp: nth_append intro: less_SucI)
  qed
qed

lemma foldl_obj_set_proto:
  "tb ''__proto__'' = None \<Longrightarrow>
   foldl (\<lambda>t m. obj_set t (key m) (val m)) tb ms ''__proto__'' = None"
  by (induction ms rule: rev_induct) (auto simp: obj_set_def)

lemma last_index_with:
  "i < (n::nat) \<Longrightarrow> P i \<Longrightarrow> \<exists>k<n. P k \<and> (\<forall>j. k < j \<and> j < n \<longrightarrow> \<not> P j)"
proof (induction n)
  case 0
  then show ?case by simp
next
  case (Suc n)
  show ?case
  proof (cases "P n")
    case True
    then show ?thesis by (intro exI[of _ n]) auto
  next
    case False
    with Suc.prems have "i < n" by (cases "i = n") auto
    from Suc.IH[OF this Suc.prems(2)] obtain k where k: "k < n" "P k"
      "\<forall>j. k < j \<and> j < n \<longrightarrow> \<not> P j" by blast
    with False show ?thesis
      by (intro exI[of _ k]) (auto simp: less_Suc_eq)
  qed
qed

lemma foldl_obj_set_Some:
  assumes "foldl (\<lambda>t m. obj_set t (key m) (val m)) Map.empty ms name = Some rows"
  shows "name \<noteq> ''__proto__'' \<and>
     (\<exists>i<length ms. name = key (ms ! i) \<and> rows = val (ms ! i) \<and>
        (\<forall>j. i < j \<and> j < length ms \<longrightarrow> key (ms ! j) \<noteq> name))"
proof
  show n: "name \<noteq> ''__proto__''"
    using assms foldl_obj_set_proto[of Map.empty key val ms] by auto
  from foldl_obj_set_dom[OF assms] obtain i0 where "i0 < length ms" "name = key (ms ! i0)"
    by auto
  from last_index_with[of i0 "length ms" "\<lambda>k. key (ms ! k) = name", OF this(1) this(2)[symmetric]]
  obtain i where i: "i < length ms" "key (ms ! i) = name"
    "\<forall>j. i < j \<and> j < length ms \<longrightarrow> key (ms ! j) \<noteq> name" by blast
  have "foldl (\<lambda>t m. obj_set t (key m) (val m)) Map.empty ms (key (ms ! i)) = Some (val (ms ! i))"
    by (rule foldl_obj_set_last[OF i(1)]) (use i n in auto)
  with assms i(2) have "rows = val (ms ! i)" by simp
  with i show "\<exists>i<length ms. name = key (ms ! i) \<and> rows = val (ms ! i) \<and>
        (\<forall>j. i < j \<and> j < length ms \<longrightarrow> key (ms ! j) \<noteq> name)" by blast
qed

lemma matchAll_from_skip:
  "bt ns (x # xs) = None \<Longrightarrow> matchAll_from ns off (x # xs) = matchAll_from ns (Suc off) xs"
proof (cases "search ns xs")
  case None
  assume "bt ns (x # xs) = None"
  with None have "search ns (x # xs) = None" by simp
  with None show ?thesis by (simp add: matchAll_from_None)
next
  case (Some m)
  assume "bt ns (x # xs) = None"
  with Some have s: "search ns (x # xs) = Some (m\<lparr>index := Suc (index m)\<rparr>)" by simp
  show ?thesis
  proof (cases "whole m = []")
    case True
    then show ?thesis
      using matchAll_from_Some_empty[OF s, of off] matchAll_from_Some_empty[OF Some True, of "Suc off"]
      by simp
  next
    case False
    then show ?thesis
      using matchAll_from_Some[OF s, of off] matchAll_from_Some[OF Some False, of "Suc off"]
      by simp
  qed
qed

lemma replace_loop_step:
  "pos < length s \<Longrightarrow> \<forall>m\<in>set ms. pos < index m \<Longrightarrow>
   replace_loop s by pos ms = s ! pos # replace_loop s by (Suc pos) ms"
proof (cases ms)
  case Nil
  assume "pos < length s"
  with Nil show ?thesis by (simp add: Cons_nth_drop_Suc)
next
  case (Cons m ms')
  assume p: "pos < length s" and "\<forall>m\<in>set ms. pos < index m"
  with Cons have i: "pos < index m" by simp
  have "substring s pos (index m) = s ! pos # substring s (Suc pos) (index m)"
  proof -
    have "substring s pos (index m) = take (index m - pos) (drop pos s)"
      using i by (simp add: substring_def max_def min_def)
    also have "drop pos s = s ! pos # drop (Suc pos) s" using p by (simp add: Cons_nth_drop_Suc)
    also have "take (index m - pos) (s ! pos # drop (Suc pos) s) =
               s ! pos # take (index m - Suc pos) (drop (Suc pos) s)"
    proof -
      have "index m - pos = Suc (index m - Suc pos)" using i by simp
      then show ?thesis by simp
    qed
    also have "take (index m - Suc pos) (drop (Suc pos) s) = substring s (Suc pos) (index m)"
      using i by (simp add: substring_def max_def min_def)
    finally show ?thesis .
  qed
  with Cons show ?thesis by simp
qed

lemma bt_single_Lit: "bt [Lit l] s = (if prefix l s then Some ([], drop (length l) s) else None)"
  by simp

lemma replace_Lit_from:
  "l \<noteq> [] \<Longrightarrow>
   replace_loop (P @ s) by (length P) (matchAll_from [Lit l] (length P) s) = subst_all l by s"
proof (induction "length s" arbitrary: s P rule: less_induct)
  case less
  show ?case
  proof (cases s)
    case Nil
    have "search [Lit l] [] = None" using less.prems by simp
    with Nil show ?thesis by (simp add: matchAll_from_None)
  next
    case (Cons x xs)
    show ?thesis
    proof (cases "prefix l (x # xs)")
      case True
      then obtain r where r: "x # xs = l @ r" by (auto simp: prefix_def)
      have lr: "length r < length s" using r Cons less.prems by (cases l) auto
      have b: "bt [Lit l] (x # xs) = Some ([], r)" using True r by simp
      have tk: "take (length (x # xs) - length r) (x # xs) = l" using r by simp
      have se: "search [Lit l] (x # xs) = Some \<lparr>index = 0, whole = l, groups = []\<rparr>"
        using b tk by (simp only: search.simps option.case prod.case)
      have ma: "matchAll_from [Lit l] (length P) (x # xs) =
                  \<lparr>index = length P, whole = l, groups = []\<rparr> #
                    matchAll_from [Lit l] (length P + length l) r"
        using matchAll_from_Some[OF se, of "length P"] less.prems r by simp
      have e: "P @ x # xs = (P @ l) @ r" using r by simp
      have "replace_loop (P @ x # xs) by (length P) (matchAll_from [Lit l] (length P) (x # xs)) =
            by @ replace_loop (P @ x # xs) by (length (P @ l))
                  (matchAll_from [Lit l] (length (P @ l)) r)"
        by (simp add: ma substring_def)
      also have "\<dots> = by @ replace_loop ((P @ l) @ r) by (length (P @ l))
                  (matchAll_from [Lit l] (length (P @ l)) r)"
        by (simp only: e)
      also have "\<dots> = by @ subst_all l by r"
        using less.hyps[OF lr less.prems, of "P @ l"] by simp
      finally have f: "replace_loop (P @ x # xs) by (length P)
          (matchAll_from [Lit l] (length P) (x # xs)) = by @ subst_all l by r" .
      have d: "drop (length l) (x # xs) = r" using r by simp
      have "subst_all l by (x # xs) = by @ subst_all l by r"
        using True less.prems d by simp
      with f show ?thesis unfolding Cons by simp
    next
      case False
      then have b: "bt [Lit l] (x # xs) = None" by simp
      let ?ms = "matchAll_from [Lit l] (Suc (length P)) xs"
      have ma: "matchAll_from [Lit l] (length P) (x # xs) = ?ms"
        by (rule matchAll_from_skip[OF b])
      have gt: "\<forall>m\<in>set ?ms. length P < index m"
      proof
        fix m assume "m \<in> set ?ms"
        from matchAll_from_props[OF this] show "length P < index m" by auto
      qed
      have "replace_loop (P @ x # xs) by (length P) ?ms =
            (P @ x # xs) ! length P # replace_loop (P @ x # xs) by (Suc (length P)) ?ms"
        by (rule replace_loop_step[OF _ gt]) simp
      also have "\<dots> = x # replace_loop ((P @ [x]) @ xs) by (length (P @ [x]))
                           (matchAll_from [Lit l] (length (P @ [x])) xs)"
        by simp
      also have "\<dots> = x # subst_all l by xs"
        using less.hyps[of xs "P @ [x]"] less.prems Cons by simp
      finally show ?thesis using False Cons ma by simp
    qed
  qed
qed

lemma replace_nbsp: "replace s nbspRegex by = subst_all ''&nbsp;'' by s"
  using replace_Lit_from[of "''&nbsp;''" "[]" s "by"]
  by (simp add: replace_def matchAll_def nbspRegex_def)

lemma trim_spec:
  "\<exists>a b. s = a @ trim s @ b \<and> (\<forall>c\<in>set a. is_space c) \<and> (\<forall>c\<in>set b. is_space c) \<and>
         (trim s = [] \<or> (\<not> is_space (hd (trim s)) \<and> \<not> is_space (last (trim s))))"
proof -
  let ?t = "dropWhile is_space s"
  let ?a = "takeWhile is_space s"
  let ?b = "rev (takeWhile is_space (rev ?t))"
  have t: "?t = trim s @ ?b"
    unfolding trim_def by (metis rev_append rev_rev_ident takeWhile_dropWhile_id)
  have s: "s = ?a @ trim s @ ?b" using t by (metis takeWhile_dropWhile_id)
  have a: "\<forall>c\<in>set ?a. is_space c" by (meson set_takeWhileD)
  have b: "\<forall>c\<in>set ?b. is_space c" by (metis set_rev set_takeWhileD)
  have e: "trim s = [] \<or> (\<not> is_space (hd (trim s)) \<and> \<not> is_space (last (trim s)))"
  proof (cases "trim s = []")
    case True
    then show ?thesis by simp
  next
    case False
    then have "hd (trim s) = hd ?t" using t by (metis hd_append2)
    moreover from False t have "?t \<noteq> []" by (metis Nil_is_append_conv)
    ultimately have 1: "\<not> is_space (hd (trim s))" by (metis hd_dropWhile)
    have ne: "dropWhile is_space (rev ?t) \<noteq> []" using False by (simp add: trim_def)
    have "last (trim s) = hd (dropWhile is_space (rev ?t))"
      unfolding trim_def using ne by (simp add: last_rev)
    with ne have 2: "\<not> is_space (last (trim s))" by (metis hd_dropWhile)
    from 1 2 show ?thesis by simp
  qed
  from s a b e show ?thesis by blast
qed

lemma table_rows_cells:
  "table_rows m =
     map (\<lambda>r. map (\<lambda>c. trim (subst_all ''&nbsp;'' '' '' (groups c ! 0)))
                   (matchAll (groups r ! 0) tdRegex))
         (matchAll (groups m ! 0) trRegex)"
  by (simp add: table_rows_def replace_nbsp)

lemma extractTables_spec:
  assumes "\<forall>m\<in>set (matchAll textInput tableRegex). \<exists>c cs rest. table_rows m = (c # cs) # rest"
  shows "\<exists>r. extractTables textInput = Inr r \<and>
     ex_textPart r = trim (weave placeholder textInput 0 (matchAll textInput tableRegex)) \<and>
     ex_tablesPart r =
       foldl (\<lambda>t m. obj_set t (first_cell (table_rows m)) (drop 1 (table_rows m))) Map.empty
         (matchAll textInput tableRegex)"
proof -
  let ?ms = "matchAll textInput tableRegex"
  from assms have "\<forall>m\<in>set ?ms. table_rows m \<noteq> []" by auto
  from extractTables_loop_total[OF this, of textInput 0 "[]" Map.empty]
  obtain pos' tr' tp' where l: "extractTables_loop textInput ?ms 0 [] Map.empty = Inr (pos', tr', tp')"
    by (metis prod_cases3)
  from extractTables_loop_weave[OF l] have
    "concat (tr' @ [drop pos' textInput]) = weave placeholder textInput 0 ?ms"
    "tp' = foldl (\<lambda>t m. obj_set t (first_cell (table_rows m)) (drop 1 (table_rows m))) Map.empty ?ms"
    by simp_all
  with l show ?thesis by (simp add: extractTables_def concat_join)
qed

text \<open>
  C6 as amended: when every matched table block has a first row with a first cell,
  \<^verbatim>\<open>extractTables\<close> returns; the matches tile the input, and the text part is the input
  with every matched block replaced, where it stands, by the placeholder of its name,
  then trimmed; the name is the first cell of the first row; under a name other than
  \<^verbatim>\<open>__proto__\<close> the mapping holds the rows after the first of the last block of that
  name, and it holds nothing else: nothing under \<^verbatim>\<open>__proto__\<close>, and what it holds under a
  name are the rows after the first of the last block of that name; every cell is the
  captured content with each \<^verbatim>\<open>&nbsp;\<close> replaced by a space, trimmed; the table of colours
  gives the mapping from \<open>Colors\<close> to the row of \<open>Red\<close> and the placeholder of \<open>Colors\<close>.
\<close>

theorem extractTables_tables:
  "((\<forall>m\<in>set (matchAll textInput tableRegex). \<exists>c cs rest. table_rows m = (c # cs) # rest) \<longrightarrow>
      (\<exists>r. extractTables textInput = Inr r \<and>
         weave whole textInput 0 (matchAll textInput tableRegex) = textInput \<and>
         ex_textPart r = trim (weave placeholder textInput 0 (matchAll textInput tableRegex)) \<and>
         (\<forall>i<length (matchAll textInput tableRegex).
            first_cell (table_rows (matchAll textInput tableRegex ! i)) \<noteq> ''__proto__'' \<and>
            (\<forall>j. i < j \<and> j < length (matchAll textInput tableRegex) \<longrightarrow>
               first_cell (table_rows (matchAll textInput tableRegex ! j)) \<noteq>
               first_cell (table_rows (matchAll textInput tableRegex ! i))) \<longrightarrow>
            ex_tablesPart r (first_cell (table_rows (matchAll textInput tableRegex ! i))) =
              Some (drop 1 (table_rows (matchAll textInput tableRegex ! i)))) \<and>
         ex_tablesPart r ''__proto__'' = None \<and>
         (\<forall>name rows. ex_tablesPart r name = Some rows \<longrightarrow>
            name \<noteq> ''__proto__'' \<and>
            (\<exists>i<length (matchAll textInput tableRegex).
               name = first_cell (table_rows (matchAll textInput tableRegex ! i)) \<and>
               rows = drop 1 (table_rows (matchAll textInput tableRegex ! i)) \<and>
               (\<forall>j. i < j \<and> j < length (matchAll textInput tableRegex) \<longrightarrow>
                  first_cell (table_rows (matchAll textInput tableRegex ! j)) \<noteq> name))))) \<and>
   (\<forall>c cs rest. table_rows m = (c # cs) # rest \<longrightarrow>
      first_cell (table_rows m) = c \<and> placeholder m = ''${table:'' @ c @ ''}'') \<and>
   table_rows m =
     map (\<lambda>r. map (\<lambda>c. trim (subst_all ''&nbsp;'' '' '' (groups c ! 0)))
                   (matchAll (groups r ! 0) tdRegex))
         (matchAll (groups m ! 0) trRegex) \<and>
   extractTables colors_table =
     Inr \<lparr>ex_textPart = ''${table:Colors}'',
          ex_tablesPart = [''Colors'' \<mapsto> [[''Red'', ''255,0,0'']]]\<rparr>"
proof (intro conjI impI allI)
  assume h: "\<forall>m\<in>set (matchAll textInput tableRegex). \<exists>c cs rest. table_rows m = (c # cs) # rest"
  let ?ms = "matchAll textInput tableRegex"
  let ?key = "\<lambda>m. first_cell (table_rows m)"
  let ?val = "\<lambda>m. drop 1 (table_rows m)"
  from extractTables_spec[OF h] obtain r where r: "extractTables textInput = Inr r"
    and t: "ex_textPart r = trim (weave placeholder textInput 0 ?ms)"
    and f: "ex_tablesPart r = foldl (\<lambda>t m. obj_set t (?key m) (?val m)) Map.empty ?ms"
    by blast
  have 1: "\<forall>i<length ?ms. ?key (?ms ! i) \<noteq> ''__proto__'' \<and>
            (\<forall>j. i < j \<and> j < length ?ms \<longrightarrow> ?key (?ms ! j) \<noteq> ?key (?ms ! i)) \<longrightarrow>
            ex_tablesPart r (?key (?ms ! i)) = Some (?val (?ms ! i))"
  proof (intro allI impI)
    fix i assume i: "i < length ?ms"
      and a: "?key (?ms ! i) \<noteq> ''__proto__'' \<and>
            (\<forall>j. i < j \<and> j < length ?ms \<longrightarrow> ?key (?ms ! j) \<noteq> ?key (?ms ! i))"
    from a have a1: "?key (?ms ! i) \<noteq> ''__proto__''"
      and a2: "\<forall>j. i < j \<and> j < length ?ms \<longrightarrow> ?key (?ms ! j) \<noteq> ?key (?ms ! i)" by blast+
    show "ex_tablesPart r (?key (?ms ! i)) = Some (?val (?ms ! i))"
      unfolding f by (rule foldl_obj_set_last[of i ?ms ?key ?val, OF i a1 a2])
  qed
  have 2: "\<forall>name rows. ex_tablesPart r name = Some rows \<longrightarrow>
            name \<noteq> ''__proto__'' \<and>
            (\<exists>i<length ?ms. name = ?key (?ms ! i) \<and> rows = ?val (?ms ! i) \<and>
               (\<forall>j. i < j \<and> j < length ?ms \<longrightarrow> ?key (?ms ! j) \<noteq> name))"
  proof (intro allI impI)
    fix name rows assume "ex_tablesPart r name = Some rows"
    then have "foldl (\<lambda>t m. obj_set t (?key m) (?val m)) Map.empty ?ms name = Some rows"
      unfolding f .
    from foldl_obj_set_Some[of ?key ?val ?ms name rows, OF this]
    show "name \<noteq> ''__proto__'' \<and>
            (\<exists>i<length ?ms. name = ?key (?ms ! i) \<and> rows = ?val (?ms ! i) \<and>
               (\<forall>j. i < j \<and> j < length ?ms \<longrightarrow> ?key (?ms ! j) \<noteq> name))" .
  qed
  have 3: "ex_tablesPart r ''__proto__'' = None"
    unfolding f by (rule foldl_obj_set_proto) simp
  from r t 1 2 3 matchAll_tiles[of textInput tableRegex]
  show "\<exists>r. extractTables textInput = Inr r \<and>
         weave whole textInput 0 ?ms = textInput \<and>
         ex_textPart r = trim (weave placeholder textInput 0 ?ms) \<and>
         (\<forall>i<length ?ms. ?key (?ms ! i) \<noteq> ''__proto__'' \<and>
            (\<forall>j. i < j \<and> j < length ?ms \<longrightarrow> ?key (?ms ! j) \<noteq> ?key (?ms ! i)) \<longrightarrow>
            ex_tablesPart r (?key (?ms ! i)) = Some (?val (?ms ! i))) \<and>
         ex_tablesPart r ''__proto__'' = None \<and>
         (\<forall>name rows. ex_tablesPart r name = Some rows \<longrightarrow>
            name \<noteq> ''__proto__'' \<and>
            (\<exists>i<length ?ms. name = ?key (?ms ! i) \<and> rows = ?val (?ms ! i) \<and>
               (\<forall>j. i < j \<and> j < length ?ms \<longrightarrow> ?key (?ms ! j) \<noteq> name)))"
    by blast
next
  fix c cs rest assume "table_rows m = (c # cs) # rest"
  then show "first_cell (table_rows m) = c" by (simp add: first_cell_def)
next
  fix c cs rest assume "table_rows m = (c # cs) # rest"
  then show "placeholder m = ''${table:'' @ c @ ''}''" by (simp add: placeholder_def first_cell_def)
next
  show "table_rows m =
     map (\<lambda>r. map (\<lambda>c. trim (subst_all ''&nbsp;'' '' '' (groups c ! 0)))
                   (matchAll (groups r ! 0) tdRegex))
         (matchAll (groups m ! 0) trRegex)"
    by (rule table_rows_cells)
next
  have rows: "map table_rows (matchAll colors_table tableRegex) = [[[''Colors''], [''Red'', ''255,0,0'']]]"
    by code_simp
  then obtain m0 where ms: "matchAll colors_table tableRegex = [m0]"
    and m0: "table_rows m0 = [[''Colors''], [''Red'', ''255,0,0'']]" by auto
  have "\<forall>m\<in>set (matchAll colors_table tableRegex). \<exists>c cs rest. table_rows m = (c # cs) # rest"
    unfolding ms using m0 by simp
  from extractTables_spec[OF this] obtain r where r: "extractTables colors_table = Inr r"
    and f: "ex_tablesPart r =
       foldl (\<lambda>t m. obj_set t (first_cell (table_rows m)) (drop 1 (table_rows m))) Map.empty
         (matchAll colors_table tableRegex)" by blast
  have tb: "ex_tablesPart r = [''Colors'' \<mapsto> [[''Red'', ''255,0,0'']]]"
    unfolding f ms by (simp add: m0 first_cell_def obj_set_def)
  have "map_sum id ex_textPart (extractTables colors_table) = Inr ''${table:Colors}''"
    by code_simp
  with r have tx: "ex_textPart r = ''${table:Colors}''" by simp
  from tb tx have "r = \<lparr>ex_textPart = ''${table:Colors}'',
          ex_tablesPart = [''Colors'' \<mapsto> [[''Red'', ''255,0,0'']]]\<rparr>" by (cases r) simp
  with r show "extractTables colors_table =
     Inr \<lparr>ex_textPart = ''${table:Colors}'',
          ex_tablesPart = [''Colors'' \<mapsto> [[''Red'', ''255,0,0'']]]\<rparr>" by simp
qed

text \<open>
  Two blocks of the same name: both placeholders stand in the text, and the mapping
  holds the rows of the second block only.
\<close>

theorem extractTables_same_name_counterexample:
  "map table_rows (matchAll same_name_tables tableRegex) =
     [[[''A''], [''1'']], [[''A''], [''2'']]] \<and>
   map_sum id ex_textPart (extractTables same_name_tables) = Inr ''${table:A} and ${table:A}'' \<and>
   table_of (extractTables same_name_tables) ''A'' = Some [[''2'']]"
  by code_simp

theorem extractTables_tables_witness:
  "map table_rows (matchAll same_name_tables tableRegex) =
     [[[''A''], [''1'']], [[''A''], [''2'']]] \<and>
   (\<exists>r. extractTables same_name_tables = Inr r \<and>
      weave whole same_name_tables 0 (matchAll same_name_tables tableRegex) = same_name_tables \<and>
      ex_textPart r = trim (weave placeholder same_name_tables 0 (matchAll same_name_tables tableRegex)) \<and>
      ex_textPart r = ''${table:A} and ${table:A}'' \<and>
      ex_tablesPart r ''A'' = Some [[''2'']] \<and>
      ex_tablesPart r ''__proto__'' = None \<and>
      dom (ex_tablesPart r) = {''A''}) \<and>
   map table_rows (matchAll proto_table tableRegex) = [[[''__proto__''], [''1'']]] \<and>
   (\<exists>r. extractTables proto_table = Inr r \<and>
      ex_textPart r = ''${table:__proto__}'' \<and>
      ex_tablesPart r = Map.empty)"
proof (intro conjI)
  let ?ms = "matchAll same_name_tables tableRegex"
  show rows: "map table_rows ?ms = [[[''A''], [''1'']], [[''A''], [''2'']]]"
    by code_simp
  then obtain m0 m1 where ms: "?ms = [m0, m1]"
    and m0: "table_rows m0 = [[''A''], [''1'']]" and m1: "table_rows m1 = [[''A''], [''2'']]"
    by auto
  have h: "\<forall>m\<in>set ?ms. \<exists>c cs rest. table_rows m = (c # cs) # rest"
    unfolding ms using m0 m1 by simp
  with extractTables_tables[of same_name_tables] obtain r where
    r: "extractTables same_name_tables = Inr r"
    and w: "weave whole same_name_tables 0 ?ms = same_name_tables"
    and t: "ex_textPart r = trim (weave placeholder same_name_tables 0 ?ms)"
    and l: "\<forall>i<length ?ms.
            first_cell (table_rows (?ms ! i)) \<noteq> ''__proto__'' \<and>
            (\<forall>j. i < j \<and> j < length ?ms \<longrightarrow>
               first_cell (table_rows (?ms ! j)) \<noteq> first_cell (table_rows (?ms ! i))) \<longrightarrow>
            ex_tablesPart r (first_cell (table_rows (?ms ! i))) = Some (drop 1 (table_rows (?ms ! i)))"
    and p: "ex_tablesPart r ''__proto__'' = None"
    and o: "\<forall>name rows. ex_tablesPart r name = Some rows \<longrightarrow>
            name \<noteq> ''__proto__'' \<and>
            (\<exists>i<length ?ms. name = first_cell (table_rows (?ms ! i)) \<and>
               rows = drop 1 (table_rows (?ms ! i)) \<and>
               (\<forall>j. i < j \<and> j < length ?ms \<longrightarrow> first_cell (table_rows (?ms ! j)) \<noteq> name))"
    by blast
  have "ex_tablesPart r (first_cell (table_rows (?ms ! 1))) = Some (drop 1 (table_rows (?ms ! 1)))"
    using l[rule_format, of 1] unfolding ms by (simp add: m1 first_cell_def)
  then have a: "ex_tablesPart r ''A'' = Some [[''2'']]"
    unfolding ms by (simp add: m1 first_cell_def)
  have d: "dom (ex_tablesPart r) = {''A''}"
  proof
    show "dom (ex_tablesPart r) \<subseteq> {''A''}"
    proof
      fix name assume "name \<in> dom (ex_tablesPart r)"
      then obtain rows where "ex_tablesPart r name = Some rows" by auto
      with o obtain i where "i < length ?ms" "name = first_cell (table_rows (?ms ! i))" by blast
      then have "name = ''A''"
        unfolding ms using m0 m1 by (cases i) (auto simp: first_cell_def)
      then show "name \<in> {''A''}" by simp
    qed
    show "{''A''} \<subseteq> dom (ex_tablesPart r)" using a by auto
  qed
  have "map_sum id ex_textPart (extractTables same_name_tables) = Inr ''${table:A} and ${table:A}''"
    by code_simp
  with r have x: "ex_textPart r = ''${table:A} and ${table:A}''" by simp
  from r w t x a p d show "\<exists>r. extractTables same_name_tables = Inr r \<and>
      weave whole same_name_tables 0 ?ms = same_name_tables \<and>
      ex_textPart r = trim (weave placeholder same_name_tables 0 ?ms) \<and>
      ex_textPart r = ''${table:A} and ${table:A}'' \<and>
      ex_tablesPart r ''A'' = Some [[''2'']] \<and>
      ex_tablesPart r ''__proto__'' = None \<and>
      dom (ex_tablesPart r) = {''A''}" by blast
next
  let ?ms = "matchAll proto_table tableRegex"
  show rows: "map table_rows ?ms = [[[''__proto__''], [''1'']]]"
    by code_simp
  then obtain m0 where ms: "?ms = [m0]"
    and m0: "table_rows m0 = [[''__proto__''], [''1'']]"
    by auto
  have h: "\<forall>m\<in>set ?ms. \<exists>c cs rest. table_rows m = (c # cs) # rest"
    unfolding ms using m0 by simp
  with extractTables_tables[of proto_table] obtain r where
    r: "extractTables proto_table = Inr r"
    and o: "\<forall>name rows. ex_tablesPart r name = Some rows \<longrightarrow>
            name \<noteq> ''__proto__'' \<and>
            (\<exists>i<length ?ms. name = first_cell (table_rows (?ms ! i)) \<and>
               rows = drop 1 (table_rows (?ms ! i)) \<and>
               (\<forall>j. i < j \<and> j < length ?ms \<longrightarrow> first_cell (table_rows (?ms ! j)) \<noteq> name))"
    by blast
  have e: "ex_tablesPart r = Map.empty"
  proof
    fix name
    show "ex_tablesPart r name = None"
    proof (cases "ex_tablesPart r name")
      case None
      then show ?thesis .
    next
      case (Some rows)
      with o have n: "name \<noteq> ''__proto__''"
        and "\<exists>i<length ?ms. name = first_cell (table_rows (?ms ! i))" by blast+
      then obtain i where "i < length ?ms" "name = first_cell (table_rows (?ms ! i))" by blast
      then have "name = ''__proto__''" unfolding ms using m0 by (simp add: first_cell_def)
      with n show ?thesis by simp
    qed
  qed
  have "map_sum id ex_textPart (extractTables proto_table) = Inr ''${table:__proto__}''"
    by code_simp
  with r have x: "ex_textPart r = ''${table:__proto__}''" by simp
  from r x e show "\<exists>r. extractTables proto_table = Inr r \<and>
      ex_textPart r = ''${table:__proto__}'' \<and> ex_tablesPart r = Map.empty" by blast
qed
section \<open>Argument lists\<close>

lemma lc_argRegex:
  "lc argRegex w caps \<longleftrightarrow>
     (\<exists>cls name type desc. w = arg_markup cls name type desc \<and>
        arg_parts_ok cls name type desc \<and> caps = [name, type, desc])"
proof
  assume "lc argRegex w caps"
  then show "\<exists>cls name type desc. w = arg_markup cls name type desc \<and>
        arg_parts_ok cls name type desc \<and> caps = [name, type, desc]"
    unfolding argRegex_def arg_markup_def
    apply (elim lcE)
    apply hypsubst
    apply (simp only: append_Nil2)
    apply (rule exI, rule exI, rule exI, rule exI)
    apply (rule conjI, rule refl)
    apply (simp add: arg_parts_ok_def not_char_def dot_def)
    apply (auto simp: Suc_le_eq)
    done
next
  assume "\<exists>cls name type desc. w = arg_markup cls name type desc \<and>
        arg_parts_ok cls name type desc \<and> caps = [name, type, desc]"
  then obtain cls name type desc where w: "w = arg_markup cls name type desc"
    and ok: "arg_parts_ok cls name type desc" and c: "caps = [name, type, desc]" by blast
  show "lc argRegex w caps"
    unfolding w c argRegex_def arg_markup_def
    using ok
    by (intro lc_LitI lc_RepI lc_GrpI lc_Lit_lastI)
       (auto simp: arg_parts_ok_def not_char_def dot_def Suc_le_eq)
qed

lemma indexOf_range: "indexOf s pat = - 1 \<or> (0 \<le> indexOf s pat \<and> indexOf s pat \<le> int (length s))"
  by (induction s) (auto simp: Let_def)

lemma indexOf_found_iff: "indexOf s pat > - 1 \<longleftrightarrow> contains s pat"
proof (induction s)
  case Nil
  show ?case by (auto simp: contains_def)
next
  case (Cons x xs)
  show ?case
  proof (cases "prefix pat (x # xs)")
    case True
    then have "contains (x # xs) pat" unfolding contains_def prefix_def
      by (metis append_Nil)
    with True show ?thesis by simp
  next
    case False
    have "contains (x # xs) pat \<longleftrightarrow> contains xs pat"
    proof
      assume "contains (x # xs) pat"
      then obtain p q where pq: "x # xs = p @ pat @ q" unfolding contains_def by blast
      with False have "p \<noteq> []" by (auto simp: prefix_def)
      then obtain p' where "p = x # p'" using pq by (cases p) auto
      with pq show "contains xs pat" unfolding contains_def by auto
    next
      assume "contains xs pat"
      then obtain p q where "xs = p @ pat @ q" unfolding contains_def by blast
      then have "x # xs = (x # p) @ pat @ q" by simp
      then show "contains (x # xs) pat" unfolding contains_def by blast
    qed
    with False Cons.IH indexOf_range[of xs pat] show ?thesis by auto
  qed
qed

lemma indexOf_before_first:
  "indexOf s pat > - 1 \<Longrightarrow> substring s 0 (nat (indexOf s pat)) = before_first pat s"
proof (induction s)
  case Nil
  then show ?case by (simp add: substring_def)
next
  case (Cons x xs)
  show ?case
  proof (cases "prefix pat (x # xs)")
    case True
    then show ?thesis by (simp add: substring_def)
  next
    case False
    with Cons.prems have r: "indexOf xs pat > - 1" by (auto split: if_splits)
    with indexOf_range[of xs pat] have "0 \<le> indexOf xs pat" by auto
    then have "nat (indexOf xs pat + 1) = Suc (nat (indexOf xs pat))" by simp
    with Cons.IH[OF r] False r show ?thesis by (simp add: substring_def)
  qed
qed

lemma before_first_none: "\<not> contains s pat \<Longrightarrow> before_first pat s = s"
proof (induction s)
  case Nil
  show ?case by simp
next
  case (Cons x xs)
  have 1: "\<not> prefix pat (x # xs)"
  proof
    assume "prefix pat (x # xs)"
    then have "contains (x # xs) pat" unfolding contains_def prefix_def by (metis append_Nil)
    with Cons.prems show False by simp
  qed
  have 2: "\<not> contains xs pat"
  proof
    assume "contains xs pat"
    then obtain p q where "xs = p @ pat @ q" unfolding contains_def by blast
    then have "x # xs = (x # p) @ pat @ q" by simp
    with Cons.prems show False unfolding contains_def by blast
  qed
  from 1 Cons.IH[OF 2] show ?case by simp
qed

lemma before_first_spec:
  "contains s pat \<Longrightarrow>
   (\<exists>q. s = before_first pat s @ pat @ q) \<and>
   (\<forall>p q. s = p @ pat @ q \<longrightarrow> length (before_first pat s) \<le> length p)"
proof (induction s)
  case Nil
  then show ?case by (auto simp: contains_def)
next
  case (Cons x xs)
  show ?case
  proof (cases "prefix pat (x # xs)")
    case True
    then have b: "before_first pat (x # xs) = []" by simp
    from True obtain q where "x # xs = pat @ q" by (auto simp: prefix_def)
    then have "x # xs = before_first pat (x # xs) @ pat @ q" unfolding b by simp
    then show ?thesis unfolding b by (metis le0 list.size(3))
  next
    case False
    have c: "contains xs pat"
    proof -
      from Cons.prems obtain p q where pq: "x # xs = p @ pat @ q" unfolding contains_def by blast
      with False have "p \<noteq> []" by (auto simp: prefix_def)
      then obtain p' where "p = x # p'" using pq by (cases p) auto
      with pq show ?thesis unfolding contains_def by auto
    qed
    from Cons.IH[OF c] obtain q where q: "xs = before_first pat xs @ pat @ q"
      and m: "\<forall>p q. xs = p @ pat @ q \<longrightarrow> length (before_first pat xs) \<le> length p" by blast
    have "\<forall>p q. x # xs = p @ pat @ q \<longrightarrow> length (before_first pat (x # xs)) \<le> length p"
    proof (intro allI impI)
      fix p q' assume pq: "x # xs = p @ pat @ q'"
      with False have "p \<noteq> []" by (auto simp: prefix_def)
      then obtain p' where p': "p = x # p'" using pq by (cases p) auto
      with pq have "xs = p' @ pat @ q'" by simp
      with m have "length (before_first pat xs) \<le> length p'" by blast
      with False p' show "length (before_first pat (x # xs)) \<le> length p" by simp
    qed
    moreover have "x # xs = before_first pat (x # xs) @ pat @ q"
      using False q by simp
    ultimately show ?thesis by blast
  qed
qed

lemma mkArg_fields:
  "groups m = [name, type, desc] \<Longrightarrow>
   arg_name (mkArg m) = name \<and> arg_desc (mkArg m) = desc \<and>
   (arg_optional (mkArg m) \<longleftrightarrow> contains type '', optional'') \<and>
   arg_type (mkArg m) = before_first '', optional'' type"
  using indexOf_found_iff[of type "'', optional''"] indexOf_before_first[of type "'', optional''"]
    before_first_none[of type "'', optional''"]
  by (auto simp: mkArg_def Let_def)

text \<open>
  C7: the arguments are the matches of the entry pattern in the order of their
  positions; each entry gives its name and description as they stand, is optional
  exactly when its parenthesized type contains \<^verbatim>\<open>, optional\<close>, and has as type the text
  before the first such marker, the whole of it when there is none; a paragraph
  without an entry gives the empty list; the example of the specification gives the
  argument \<open>x\<close> of type \<open>number\<close>, optional, described by \<open>desc\<close>.
\<close>

theorem parseArgs_entries:
  "length (parseArgs paragraph) = length (matchAll paragraph argRegex) \<and>
   sorted_wrt (\<lambda>m m'. index m + length (whole m) \<le> index m') (matchAll paragraph argRegex) \<and>
   (\<forall>i<length (parseArgs paragraph).
      \<exists>cls name type desc.
        take (length (arg_markup cls name type desc))
          (drop (index (matchAll paragraph argRegex ! i)) paragraph) = arg_markup cls name type desc \<and>
        arg_parts_ok cls name type desc \<and>
        arg_name (parseArgs paragraph ! i) = name \<and>
        arg_desc (parseArgs paragraph ! i) = desc \<and>
        (arg_optional (parseArgs paragraph ! i) \<longleftrightarrow> contains type '', optional'') \<and>
        arg_type (parseArgs paragraph ! i) = before_first '', optional'' type) \<and>
   ((\<forall>p w q. paragraph = p @ w @ q \<longrightarrow>
        \<not> (\<exists>cls name type desc. w = arg_markup cls name type desc \<and> arg_parts_ok cls name type desc))
      \<longrightarrow> parseArgs paragraph = []) \<and>
   parseArgs example_args =
     [\<lparr>arg_name = ''x'', arg_desc = ''desc'', arg_optional = True, arg_type = ''number''\<rparr>]"
proof (intro conjI allI impI)
  show "length (parseArgs paragraph) = length (matchAll paragraph argRegex)"
    by (simp add: parseArgs_def)
  show "sorted_wrt (\<lambda>m m'. index m + length (whole m) \<le> index m') (matchAll paragraph argRegex)"
    by (rule matchAll_sorted)
  show "parseArgs example_args =
     [\<lparr>arg_name = ''x'', arg_desc = ''desc'', arg_optional = True, arg_type = ''number''\<rparr>]"
    by code_simp
next
  fix i assume "i < length (parseArgs paragraph)"
  then have i: "i < length (matchAll paragraph argRegex)" by (simp add: parseArgs_def)
  let ?m = "matchAll paragraph argRegex ! i"
  from i have mem: "?m \<in> set (matchAll paragraph argRegex)" by simp
  note p = matchAll_props[OF mem]
  from p(1) obtain cls name type desc where w: "whole ?m = arg_markup cls name type desc"
    and ok: "arg_parts_ok cls name type desc" and g: "groups ?m = [name, type, desc]"
    unfolding lc_argRegex by blast
  have a: "parseArgs paragraph ! i = mkArg ?m" using i by (simp add: parseArgs_def)
  from p(2) have "take (length (arg_markup cls name type desc)) (drop (index ?m) paragraph) =
      arg_markup cls name type desc" unfolding w .
  with ok mkArg_fields[OF g] show "\<exists>cls name type desc.
        take (length (arg_markup cls name type desc))
          (drop (index (matchAll paragraph argRegex ! i)) paragraph) = arg_markup cls name type desc \<and>
        arg_parts_ok cls name type desc \<and>
        arg_name (parseArgs paragraph ! i) = name \<and>
        arg_desc (parseArgs paragraph ! i) = desc \<and>
        (arg_optional (parseArgs paragraph ! i) \<longleftrightarrow> contains type '', optional'') \<and>
        arg_type (parseArgs paragraph ! i) = before_first '', optional'' type"
    unfolding a by blast
next
  assume n: "\<forall>p w q. paragraph = p @ w @ q \<longrightarrow>
        \<not> (\<exists>cls name type desc. w = arg_markup cls name type desc \<and> arg_parts_ok cls name type desc)"
  have "\<forall>p w q. paragraph = p @ w @ q \<longrightarrow> \<not> lang argRegex w"
  proof (intro allI impI notI)
    fix p w q assume "paragraph = p @ w @ q" and "lang argRegex w"
    with n show False unfolding lang_def lc_argRegex by blast
  qed
  then have "matchAll paragraph argRegex = []" unfolding matchAll_eq_Nil .
  then show "parseArgs paragraph = []" by (simp add: parseArgs_def)
qed

theorem parseArgs_entries_witness:
  "length (parseArgs example_args) = 1 \<and>
   (\<exists>cls name type desc.
        take (length (arg_markup cls name type desc))
          (drop (index (matchAll example_args argRegex ! 0)) example_args) = arg_markup cls name type desc \<and>
        arg_parts_ok cls name type desc \<and>
        arg_name (parseArgs example_args ! 0) = name \<and>
        arg_desc (parseArgs example_args ! 0) = desc \<and>
        (arg_optional (parseArgs example_args ! 0) \<longleftrightarrow> contains type '', optional'') \<and>
        arg_type (parseArgs example_args ! 0) = before_first '', optional'' type) \<and>
   parseArgs ''no entry here'' = []"
proof -
  have l: "length (parseArgs example_args) = 1" by code_simp
  then have 0: "0 < length (parseArgs example_args)" by simp
  have "matchAll ''no entry here'' argRegex = []" by code_simp
  then have "\<forall>p w q. ''no entry here'' = p @ w @ q \<longrightarrow>
        \<not> (\<exists>cls name type desc. w = arg_markup cls name type desc \<and> arg_parts_ok cls name type desc)"
    unfolding matchAll_eq_Nil lang_def lc_argRegex by blast
  with parseArgs_entries[of "''no entry here''"] have "parseArgs ''no entry here'' = []" by blast
  with l 0 parseArgs_entries[of example_args] show ?thesis by blast
qed

section \<open>Examples\<close>

lemma lc_exampleRegex:
  "lc exampleRegex w caps \<longleftrightarrow> (\<exists>inner. w = example_open @ inner @ example_close \<and> caps = [inner])"
proof
  assume "lc exampleRegex w caps"
  then show "\<exists>inner. w = example_open @ inner @ example_close \<and> caps = [inner]"
    unfolding exampleRegex_def example_open_def example_close_def
    apply (elim lcE)
    apply hypsubst
    apply (simp only: append_Nil2)
    apply (rule exI)
    apply (rule conjI, rule refl)
    apply simp
    done
next
  assume "\<exists>inner. w = example_open @ inner @ example_close \<and> caps = [inner]"
  then obtain inner where w: "w = example_open @ inner @ example_close" and c: "caps = [inner]"
    by blast
  show "lc exampleRegex w caps"
    unfolding w c exampleRegex_def example_open_def example_close_def
    by (intro lc_LitI lc_GrpI lc_Lit_lastI) (auto simp: any_char_def)
qed

lemma parseExample_None_iff:
  "parseExample seg = None \<longleftrightarrow>
   \<not> (\<exists>p inner q. seg = p @ example_open @ inner @ example_close @ q)"
proof -
  have "(\<exists>p w q. seg = p @ w @ q \<and> lang exampleRegex w) \<longleftrightarrow>
        (\<exists>p inner q. seg = p @ example_open @ inner @ example_close @ q)"
  proof
    assume "\<exists>p w q. seg = p @ w @ q \<and> lang exampleRegex w"
    then obtain p w q inner where "seg = p @ w @ q" "w = example_open @ inner @ example_close"
      unfolding lang_def lc_exampleRegex by blast
    then have "seg = p @ example_open @ inner @ example_close @ q" by simp
    then show "\<exists>p inner q. seg = p @ example_open @ inner @ example_close @ q" by blast
  next
    assume "\<exists>p inner q. seg = p @ example_open @ inner @ example_close @ q"
    then obtain p inner q where "seg = p @ example_open @ inner @ example_close @ q" by blast
    then have "seg = p @ (example_open @ inner @ example_close) @ q" by simp
    moreover have "lang exampleRegex (example_open @ inner @ example_close)"
      unfolding lang_def lc_exampleRegex by blast
    ultimately show "\<exists>p w q. seg = p @ w @ q \<and> lang exampleRegex w" by blast
  qed
  moreover have "parseExample seg = None \<longleftrightarrow> search exampleRegex seg = None"
    by (simp add: parseExample_def split: option.splits)
  ultimately show ?thesis unfolding search_None_iff by blast
qed

lemma parseExample_Some:
  assumes "parseExample seg = Some e"
  shows "\<exists>p inner q. seg = p @ example_open @ inner @ example_close @ q \<and> e = trim inner \<and>
           (\<forall>p' inner' q'. seg = p' @ example_open @ inner' @ example_close @ q' \<longrightarrow>
              length p \<le> length p' \<and> (length p' = length p \<longrightarrow> length inner \<le> length inner'))"
proof -
  from assms obtain m where m: "search exampleRegex seg = Some m" and e: "e = trim (groups m ! 0)"
    by (auto simp: parseExample_def split: option.splits)
  note w = search_whole[OF m]
  from w(2) obtain inner where wm: "whole m = example_open @ inner @ example_close"
    and g: "groups m = [inner]" unfolding lc_exampleRegex by blast
  define p where "p = take (index m) seg"
  define q where "q = drop (index m + length (whole m)) seg"
  have lp: "length p = index m" unfolding p_def using w(3) by simp
  have "seg = p @ whole m @ q" unfolding p_def q_def by (rule w(1))
  then have seg: "seg = p @ example_open @ inner @ example_close @ q"
    unfolding wm by simp
  have min: "\<forall>p' inner' q'. seg = p' @ example_open @ inner' @ example_close @ q' \<longrightarrow>
              length p \<le> length p' \<and> (length p' = length p \<longrightarrow> length inner \<le> length inner')"
  proof (intro allI impI conjI)
    fix p' inner' q'
    assume d: "seg = p' @ example_open @ inner' @ example_close @ q'"
    then have d': "seg = p' @ (example_open @ inner' @ example_close) @ q'" by simp
    have "lang exampleRegex (example_open @ inner' @ example_close)"
      unfolding lang_def lc_exampleRegex by blast
    from w(4)[OF d' this] show "length p \<le> length p'" unfolding lp .
    assume "length p' = length p"
    then have "length p' = index m" unfolding lp .
    with d have dr: "drop (index m) seg = example_open @ inner' @ example_close @ q'" by simp
    from search_SomeD[OF m] obtain rest where
      b: "bt exampleRegex (drop (index m) seg) = Some (groups m, rest)" by blast
    have "bt [Grp Lazy 0 any_char, Lit example_close] (inner' @ example_close @ q') = Some (groups m, rest)"
      using b unfolding dr exampleRegex_def example_open_def[symmetric] example_close_def[symmetric]
      by (simp only: bt_Lit)
    moreover have "bt [Lit example_close] (example_close @ q') \<noteq> None" by simp
    ultimately obtain u' where "length u' \<le> length inner'" "\<exists>cs. groups m = u' # cs"
      using bt_Grp_lazy_min[of 0 any_char "[Lit example_close]" "inner' @ example_close @ q'"
          "groups m" rest inner' "example_close @ q'"] by auto
    with g show "length inner \<le> length inner'" by simp
  qed
  from e g have "e = trim inner" by simp
  with seg min show ?thesis by blast
qed

lemma parseFunction_examples:
  "parseFunction text = Inr (Some f) \<Longrightarrow> fn_examples f = [parseExample (last (split text ''<p>''))]"
  by (auto simp: parseFunction_def Let_def last_conv_nth split_def split_from_ne
           split: option.splits if_splits sum.splits)

text \<open>
  C9: the examples of an accepted function fragment are one value: \<^verbatim>\<open>null\<close> when the last
  segment holds no example block, and otherwise the trimmed content of the block that
  starts first in the last segment, up to the first closing tag after its start; a
  second block changes nothing.
\<close>

theorem parseFunction_one_example:
  "(parseFunction text = Inr (Some f) \<longrightarrow>
      (\<not> (\<exists>p inner q. last (split text ''<p>'') = p @ example_open @ inner @ example_close @ q) \<and>
         fn_examples f = [None]) \<or>
      (\<exists>p inner q. last (split text ''<p>'') = p @ example_open @ inner @ example_close @ q \<and>
         fn_examples f = [Some (trim inner)] \<and>
         (\<forall>p' inner' q'. last (split text ''<p>'') = p' @ example_open @ inner' @ example_close @ q' \<longrightarrow>
            length p \<le> length p' \<and> (length p' = length p \<longrightarrow> length inner \<le> length inner')))) \<and>
   map_sum id (map_option fn_examples) (parseFunction two_examples) = Inr (Some [Some ''one()''])"
proof (intro conjI impI)
  assume a: "parseFunction text = Inr (Some f)"
  let ?seg = "last (split text ''<p>'')"
  have ex: "fn_examples f = [parseExample ?seg]" by (rule parseFunction_examples[OF a])
  show "(\<not> (\<exists>p inner q. ?seg = p @ example_open @ inner @ example_close @ q) \<and>
         fn_examples f = [None]) \<or>
      (\<exists>p inner q. ?seg = p @ example_open @ inner @ example_close @ q \<and>
         fn_examples f = [Some (trim inner)] \<and>
         (\<forall>p' inner' q'. ?seg = p' @ example_open @ inner' @ example_close @ q' \<longrightarrow>
            length p \<le> length p' \<and> (length p' = length p \<longrightarrow> length inner \<le> length inner')))"
  proof (cases "parseExample ?seg")
    case None
    with ex parseExample_None_iff[of ?seg] show ?thesis by simp
  next
    case (Some e)
    from parseExample_Some[OF Some] ex Some show ?thesis by (simp only:) blast
  qed
next
  show "map_sum id (map_option fn_examples) (parseFunction two_examples) = Inr (Some [Some ''one()''])"
    by code_simp
qed

theorem parseFunction_one_example_witness:
  "\<exists>f. parseFunction two_examples = Inr (Some f) \<and> fn_examples f = [Some ''one()''] \<and>
     (\<exists>p inner q. last (split two_examples ''<p>'') = p @ example_open @ inner @ example_close @ q \<and>
         fn_examples f = [Some (trim inner)])"
proof -
  have e: "map_sum id (map_option fn_examples) (parseFunction two_examples) = Inr (Some [Some ''one()''])"
    by code_simp
  then obtain f where f: "parseFunction two_examples = Inr (Some f)"
    by (cases "parseFunction two_examples") auto
  with e have x: "fn_examples f = [Some ''one()'']" by simp
  from parseFunction_one_example[of two_examples f] f x
  have "\<exists>p inner q. last (split two_examples ''<p>'') = p @ example_open @ inner @ example_close @ q \<and>
         fn_examples f = [Some (trim inner)]" by auto
  with f x show ?thesis by blast
qed

section \<open>The whole pipeline\<close>











end
